theory Spec2Isabelle
  imports Main "HOL-Library.Word"
begin

unbundle bit_operations_syntax

section \<open>Data model\<close>

text \<open>
  The cipher of \<^verbatim>\<open>des.py\<close> works on Python lists whose elements are the integers 0 and 1.
  A bit is modelled as a \<^typ>\<open>bool\<close> (\<open>True\<close> is 1), a byte of a \<^verbatim>\<open>bytes\<close> object as an
  8-bit word, a permutation table as a list of Python integers. Every subscript that Python
  checks is checked here as well: a failing subscript is the value \<open>Inl IndexError\<close>, the
  two explicit \<^verbatim>\<open>raise ValueError\<close> statements are \<open>Inl ValueError\<close>. The \<^verbatim>\<open>debug\<close> flag only
  prints, so it is not part of the model.
\<close>

type_synonym bit = bool
type_synonym byte = "8 word"

datatype error = ValueError | IndexError

definition bindE :: "error + 'a \<Rightarrow> ('a \<Rightarrow> error + 'b) \<Rightarrow> error + 'b" where
  "bindE m f = (case m of Inl e \<Rightarrow> Inl e | Inr x \<Rightarrow> f x)"

text \<open>A list comprehension or a \<^verbatim>\<open>for\<close> loop whose body may raise: the first error ends it.\<close>

primrec mapE :: "('a \<Rightarrow> error + 'b) \<Rightarrow> 'a list \<Rightarrow> error + 'b list" where
  "mapE f [] = Inr []"
| "mapE f (x # xs) = bindE (f x) (\<lambda>y. bindE (mapE f xs) (\<lambda>ys. Inr (y # ys)))"

primrec foldE :: "('a \<Rightarrow> 's \<Rightarrow> error + 's) \<Rightarrow> 'a list \<Rightarrow> 's \<Rightarrow> error + 's" where
  "foldE f [] s = Inr s"
| "foldE f (x # xs) s = bindE (f x s) (foldE f xs)"

text \<open>Python's \<^verbatim>\<open>xs[i]\<close>: a negative subscript counts from the end, out of range raises.\<close>

definition index :: "'a list \<Rightarrow> int \<Rightarrow> error + 'a" where
  "index xs i =
     (if 0 \<le> i \<and> i < int (length xs) then Inr (xs ! nat i)
      else if i < 0 \<and> - int (length xs) \<le> i then Inr (xs ! nat (int (length xs) + i))
      else Inl IndexError)"

text \<open>Python's \<^verbatim>\<open>xs[i:]\<close> and \<^verbatim>\<open>xs[:i]\<close> for any integer \<open>i\<close>: slices clamp and never raise.\<close>

definition slice_bound :: "'a list \<Rightarrow> int \<Rightarrow> nat" where
  "slice_bound xs i =
     (let n = int (length xs) in nat (if i < 0 then max (n + i) 0 else min i n))"

definition slice_from :: "'a list \<Rightarrow> int \<Rightarrow> 'a list" where
  "slice_from xs i = drop (slice_bound xs i) xs"

definition slice_to :: "'a list \<Rightarrow> int \<Rightarrow> 'a list" where
  "slice_to xs i = take (slice_bound xs i) xs"

text \<open>Python's \<^verbatim>\<open>range(start, stop, step)\<close> for a positive step.\<close>

definition range_step :: "nat \<Rightarrow> nat \<Rightarrow> nat \<Rightarrow> nat list" where
  "range_step start stop step =
     map (\<lambda>k. start + step * k) [0..<(stop - start + step - 1) div step]"

section \<open>The fixed tables\<close>

definition IP :: "int list" where
  "IP = [58, 50, 42, 34, 26, 18, 10, 2,
         60, 52, 44, 36, 28, 20, 12, 4,
         62, 54, 46, 38, 30, 22, 14, 6,
         64, 56, 48, 40, 32, 24, 16, 8,
         57, 49, 41, 33, 25, 17, 9, 1,
         59, 51, 43, 35, 27, 19, 11, 3,
         61, 53, 45, 37, 29, 21, 13, 5,
         63, 55, 47, 39, 31, 23, 15, 7]"

definition IP_INV :: "int list" where
  "IP_INV = [40, 8, 48, 16, 56, 24, 64, 32,
             39, 7, 47, 15, 55, 23, 63, 31,
             38, 6, 46, 14, 54, 22, 62, 30,
             37, 5, 45, 13, 53, 21, 61, 29,
             36, 4, 44, 12, 52, 20, 60, 28,
             35, 3, 43, 11, 51, 19, 59, 27,
             34, 2, 42, 10, 50, 18, 58, 26,
             33, 1, 41, 9, 49, 17, 57, 25]"

definition E_tab :: "int list" where
  "E_tab = [32, 1, 2, 3, 4, 5,
            4, 5, 6, 7, 8, 9,
            8, 9, 10, 11, 12, 13,
            12, 13, 14, 15, 16, 17,
            16, 17, 18, 19, 20, 21,
            20, 21, 22, 23, 24, 25,
            24, 25, 26, 27, 28, 29,
            28, 29, 30, 31, 32, 1]"

definition PC1 :: "int list" where
  "PC1 = [57, 49, 41, 33, 25, 17, 9,
          1, 58, 50, 42, 34, 26, 18,
          10, 2, 59, 51, 43, 35, 27,
          19, 11, 3, 60, 52, 44, 36,
          63, 55, 47, 39, 31, 23, 15,
          7, 62, 54, 46, 38, 30, 22,
          14, 6, 61, 53, 45, 37, 29,
          21, 13, 5, 28, 20, 12, 4]"

definition PC2 :: "int list" where
  "PC2 = [14, 17, 11, 24, 1, 5,
          3, 28, 15, 6, 21, 10,
          23, 19, 12, 4, 26, 8,
          16, 7, 27, 20, 13, 2,
          41, 52, 31, 37, 47, 55,
          30, 40, 51, 45, 33, 48,
          44, 49, 39, 56, 34, 53,
          46, 42, 50, 36, 29, 32]"

definition SHIFT_SCHEDULE :: "nat list" where
  "SHIFT_SCHEDULE = [1, 1, 2, 2, 2, 2, 2, 2, 1, 2, 2, 2, 2, 2, 2, 1]"

definition S_BOXES :: "int list list list" where
  "S_BOXES = [
     [[14, 4, 13, 1, 2, 15, 11, 8, 3, 10, 6, 12, 5, 9, 0, 7],
      [0, 15, 7, 4, 14, 2, 13, 1, 10, 6, 12, 11, 9, 5, 3, 8],
      [4, 1, 14, 8, 13, 6, 2, 11, 15, 12, 9, 7, 3, 10, 5, 0],
      [15, 12, 8, 2, 4, 9, 1, 7, 5, 11, 3, 14, 10, 0, 6, 13]],
     [[15, 1, 8, 14, 6, 11, 3, 4, 9, 7, 2, 13, 12, 0, 5, 10],
      [3, 13, 4, 7, 15, 2, 8, 14, 12, 0, 1, 10, 6, 9, 11, 5],
      [0, 14, 7, 11, 10, 4, 13, 1, 5, 8, 12, 6, 9, 3, 2, 15],
      [13, 8, 10, 1, 3, 15, 4, 2, 11, 6, 7, 12, 0, 5, 14, 9]],
     [[10, 0, 9, 14, 6, 3, 15, 5, 1, 13, 12, 7, 11, 4, 2, 8],
      [13, 7, 0, 9, 3, 4, 6, 10, 2, 8, 5, 14, 12, 11, 15, 1],
      [13, 6, 4, 9, 8, 15, 3, 0, 11, 1, 2, 12, 5, 10, 14, 7],
      [1, 10, 13, 0, 6, 9, 8, 7, 4, 15, 14, 3, 11, 5, 2, 12]],
     [[7, 13, 14, 3, 0, 6, 9, 10, 1, 2, 8, 5, 11, 12, 4, 15],
      [13, 8, 11, 5, 6, 15, 0, 3, 4, 7, 2, 12, 1, 10, 14, 9],
      [10, 6, 9, 0, 12, 11, 7, 13, 15, 1, 3, 14, 5, 2, 8, 4],
      [3, 15, 0, 6, 10, 1, 13, 8, 9, 4, 5, 11, 12, 7, 2, 14]],
     [[2, 12, 4, 1, 7, 10, 11, 6, 8, 5, 3, 15, 13, 0, 14, 9],
      [14, 11, 2, 12, 4, 7, 13, 1, 5, 0, 15, 10, 3, 9, 8, 6],
      [4, 2, 1, 11, 10, 13, 7, 8, 15, 9, 12, 5, 6, 3, 0, 14],
      [11, 8, 12, 7, 1, 14, 2, 13, 6, 15, 0, 9, 10, 4, 5, 3]],
     [[12, 1, 10, 15, 9, 2, 6, 8, 0, 13, 3, 4, 14, 7, 5, 11],
      [10, 15, 4, 2, 7, 12, 9, 5, 6, 1, 13, 14, 0, 11, 3, 8],
      [9, 14, 15, 5, 2, 8, 12, 3, 7, 0, 4, 10, 1, 13, 11, 6],
      [4, 3, 2, 12, 9, 5, 15, 10, 11, 14, 1, 7, 6, 0, 8, 13]],
     [[4, 11, 2, 14, 15, 0, 8, 13, 3, 12, 9, 7, 5, 10, 6, 1],
      [13, 0, 11, 7, 4, 9, 1, 10, 14, 3, 5, 12, 2, 15, 8, 6],
      [1, 4, 11, 13, 12, 3, 7, 14, 10, 15, 6, 8, 0, 5, 9, 2],
      [6, 11, 13, 8, 1, 4, 10, 7, 9, 5, 0, 15, 14, 2, 3, 12]],
     [[13, 2, 8, 4, 6, 15, 11, 1, 10, 9, 3, 14, 5, 0, 12, 7],
      [1, 15, 13, 8, 10, 3, 7, 4, 12, 5, 6, 11, 0, 14, 9, 2],
      [7, 11, 4, 1, 9, 12, 14, 2, 0, 6, 10, 13, 15, 3, 5, 8],
      [2, 1, 14, 7, 4, 10, 8, 13, 15, 12, 9, 0, 3, 5, 6, 11]]]"

definition P_tab :: "int list" where
  "P_tab = [16, 7, 20, 21,
            29, 12, 28, 17,
            1, 15, 23, 26,
            5, 18, 31, 10,
            2, 8, 24, 14,
            32, 27, 3, 9,
            19, 13, 30, 6,
            22, 11, 4, 25]"

section \<open>Bit codec and permutation\<close>

text \<open>\<^verbatim>\<open>_bytes_to_bit_array\<close>: for each byte the bits \<^verbatim>\<open>(byte >> i) & 1\<close>, \<open>i\<close> from 7 down to 0.\<close>

definition bytes_to_bit_array :: "byte list \<Rightarrow> bit list" where
  "bytes_to_bit_array data = concat (map (\<lambda>byte. map (\<lambda>i. bit byte i) (rev [0..<8])) data)"

text \<open>
  \<^verbatim>\<open>_bit_array_to_bytes\<close>: for each \<open>i\<close> in \<^verbatim>\<open>range(0, len(bits), 8)\<close> the eight bits
  \<^verbatim>\<open>bits[i + j]\<close> are shifted into a Python integer, which is appended to the byte array
  (eight bits always fit a byte).
\<close>

definition bit_array_to_bytes :: "bit list \<Rightarrow> error + byte list" where
  "bit_array_to_bytes bits =
     mapE (\<lambda>i. bindE (foldE (\<lambda>j byte. bindE (index bits (int (i + j)))
                                  (\<lambda>b. Inr (push_bit 1 byte OR of_bool b)))
                             [0..<8] (0::nat))
                      (\<lambda>byte. Inr (word_of_nat byte)))
          (range_step 0 (length bits) 8)"

text \<open>\<^verbatim>\<open>_permute\<close>: \<^verbatim>\<open>[block[table[i] - 1] for i in range(len(table))]\<close>.\<close>

definition permute :: "'a list \<Rightarrow> int list \<Rightarrow> error + 'a list" where
  "permute block table = mapE (\<lambda>t. index block (t - 1)) table"

definition initial_permutation :: "bit list \<Rightarrow> error + bit list" where
  "initial_permutation block = permute block IP"

definition inverse_initial_permutation :: "bit list \<Rightarrow> error + bit list" where
  "inverse_initial_permutation block = permute block IP_INV"

definition expansion :: "bit list \<Rightarrow> error + bit list" where
  "expansion block = permute block E_tab"

definition permuted_choice_1 :: "bit list \<Rightarrow> error + bit list" where
  "permuted_choice_1 k = permute k PC1"

definition permuted_choice_2 :: "bit list \<Rightarrow> error + bit list" where
  "permuted_choice_2 k = permute k PC2"

definition permutation_p :: "bit list \<Rightarrow> error + bit list" where
  "permutation_p block = permute block P_tab"

section \<open>Key schedule\<close>

text \<open>\<^verbatim>\<open>_left_circular_shift\<close>: \<^verbatim>\<open>bits[shift:] + bits[:shift]\<close>.\<close>

definition left_circular_shift :: "'a list \<Rightarrow> nat \<Rightarrow> 'a list" where
  "left_circular_shift bits shift = drop shift bits @ take shift bits"

text \<open>
  One pass of the loop of \<^verbatim>\<open>_generate_subkeys\<close>; the state is \<open>(c, d, subkeys)\<close>.
\<close>

definition subkey_step :: "nat \<Rightarrow> bit list \<times> bit list \<times> bit list list
    \<Rightarrow> error + (bit list \<times> bit list \<times> bit list list)" where
  "subkey_step i st =
     (case st of (c, d, subkeys) \<Rightarrow>
        bindE (index SHIFT_SCHEDULE (int i)) (\<lambda>shift.
          let c' = left_circular_shift c shift;
              d' = left_circular_shift d shift;
              cd = c' @ d'
          in bindE (permuted_choice_2 cd) (\<lambda>subkey. Inr (c', d', subkeys @ [subkey]))))"

definition generate_subkeys :: "bit list \<Rightarrow> error + bit list list" where
  "generate_subkeys k =
     bindE (permuted_choice_1 k) (\<lambda>key_56.
       let c = take 28 key_56; d = drop 28 key_56
       in bindE (foldE subkey_step [0..<16] (c, d, []))
            (\<lambda>st. case st of (c', d', subkeys) \<Rightarrow> Inr subkeys))"

section \<open>Round function\<close>

text \<open>\<^verbatim>\<open>_xor\<close>: \<^verbatim>\<open>[a[i] ^ b[i] for i in range(len(a))]\<close>.\<close>

definition xor_bits :: "bit list \<Rightarrow> bit list \<Rightarrow> error + bit list" where
  "xor_bits a b =
     mapE (\<lambda>i. bindE (index a (int i)) (\<lambda>x. bindE (index b (int i)) (\<lambda>y. Inr (x \<noteq> y))))
          [0..<length a]"

text \<open>
  The body of the loop of \<^verbatim>\<open>_s_box_substitution\<close> for group number \<open>i\<close>: row from the
  outer two bits, column from the inner four, the table entry as four bits, high bit first.
\<close>

definition s_box_group :: "nat \<times> bit list \<Rightarrow> error + bit list" where
  "s_box_group ig =
     (case ig of (i, grp) \<Rightarrow>
        bindE (index grp 0) (\<lambda>g0.
        bindE (index grp 5) (\<lambda>g5.
        bindE (index grp 1) (\<lambda>g1.
        bindE (index grp 2) (\<lambda>g2.
        bindE (index grp 3) (\<lambda>g3.
        bindE (index grp 4) (\<lambda>g4.
          let row = (push_bit 1 (of_bool g0) OR of_bool g5 :: nat);
              col = (push_bit 3 (of_bool g1) OR push_bit 2 (of_bool g2)
                      OR push_bit 1 (of_bool g3) OR of_bool g4 :: nat)
          in bindE (index S_BOXES (int i)) (\<lambda>box.
             bindE (index box (int row)) (\<lambda>line.
             bindE (index line (int col)) (\<lambda>v.
               Inr (map (\<lambda>j. bit v j) (rev [0..<4]))))))))))))"

definition s_box_substitution :: "bit list \<Rightarrow> error + bit list" where
  "s_box_substitution block =
     (let groups = map (\<lambda>i. take 6 (drop i block)) (range_step 0 48 6)
      in bindE (mapE s_box_group (enumerate 0 groups)) (\<lambda>outs. Inr (concat outs)))"

definition f_function :: "bit list \<Rightarrow> bit list \<Rightarrow> error + bit list" where
  "f_function r subkey =
     bindE (expansion r) (\<lambda>expanded.
     bindE (xor_bits expanded subkey) (\<lambda>xored.
     bindE (s_box_substitution xored) (\<lambda>substituted.
     permutation_p substituted)))"

definition des_round :: "bit list \<Rightarrow> bit list \<Rightarrow> bit list \<Rightarrow> error + (bit list \<times> bit list)" where
  "des_round left right subkey =
     bindE (f_function right subkey) (\<lambda>f_result.
     bindE (xor_bits left f_result) (\<lambda>new_right.
     Inr (right, new_right)))"

section \<open>The cipher object\<close>

record des =
  key :: "bit list"
  subkeys :: "bit list list"

text \<open>\<^verbatim>\<open>DES.__init__\<close>: the key must be 8 bytes; the subkeys are computed once.\<close>

definition init :: "byte list \<Rightarrow> error + des" where
  "init k =
     (if length k \<noteq> 8 then Inl ValueError
      else let kb = bytes_to_bit_array k
           in bindE (generate_subkeys kb) (\<lambda>sks. Inr \<lparr>key = kb, subkeys = sks\<rparr>))"

definition encrypt_block :: "des \<Rightarrow> bit list \<Rightarrow> error + bit list" where
  "encrypt_block d plaintext_block =
     bindE (initial_permutation plaintext_block) (\<lambda>block.
       let left = take 32 block; right = drop 32 block
       in bindE (foldE (\<lambda>i lr. case lr of (l, r) \<Rightarrow>
                          bindE (index (subkeys d) (int i)) (\<lambda>sk. des_round l r sk))
                       [0..<16] (left, right))
            (\<lambda>lr. case lr of (l, r) \<Rightarrow> inverse_initial_permutation (r @ l)))"

definition decrypt_block :: "des \<Rightarrow> bit list \<Rightarrow> error + bit list" where
  "decrypt_block d ciphertext_block =
     bindE (initial_permutation ciphertext_block) (\<lambda>block.
       let left = take 32 block; right = drop 32 block
       in bindE (foldE (\<lambda>i lr. case lr of (l, r) \<Rightarrow>
                          bindE (index (subkeys d) (15 - int i)) (\<lambda>sk. des_round l r sk))
                       [0..<16] (left, right))
            (\<lambda>lr. case lr of (l, r) \<Rightarrow> inverse_initial_permutation (r @ l)))"

section \<open>Padded encryption and decryption of byte strings\<close>

text \<open>The padding step of \<^verbatim>\<open>encrypt\<close>: nothing is appended when the computed length is 8.\<close>

definition pad :: "byte list \<Rightarrow> byte list" where
  "pad plaintext =
     (let padding_length = 8 - (length plaintext mod 8)
      in if padding_length < 8
         then plaintext @ replicate padding_length (word_of_nat padding_length)
         else plaintext)"

definition encrypt_chunk :: "des \<Rightarrow> byte list \<Rightarrow> error + byte list" where
  "encrypt_chunk d block =
     bindE (encrypt_block d (bytes_to_bit_array block)) bit_array_to_bytes"

definition decrypt_chunk :: "des \<Rightarrow> byte list \<Rightarrow> error + byte list" where
  "decrypt_chunk d block =
     bindE (decrypt_block d (bytes_to_bit_array block)) bit_array_to_bytes"

definition encrypt :: "des \<Rightarrow> byte list \<Rightarrow> error + byte list" where
  "encrypt d plaintext =
     (let padded = pad plaintext
      in bindE (mapE (\<lambda>i. encrypt_chunk d (take 8 (drop i padded)))
                     (range_step 0 (length padded) 8))
           (\<lambda>blocks. Inr (concat blocks)))"

text \<open>The block loop of \<^verbatim>\<open>decrypt\<close>, before the padding is looked at.\<close>

definition decrypt_blocks :: "des \<Rightarrow> byte list \<Rightarrow> error + byte list" where
  "decrypt_blocks d ciphertext =
     bindE (mapE (\<lambda>i. decrypt_chunk d (take 8 (drop i ciphertext)))
                 (range_step 0 (length ciphertext) 8))
       (\<lambda>blocks. Inr (concat blocks))"

text \<open>
  The last four lines of \<^verbatim>\<open>decrypt\<close>: \<^verbatim>\<open>plaintext[-1]\<close>, the test on
  \<^verbatim>\<open>plaintext[-padding_length:]\<close> and the slice \<^verbatim>\<open>plaintext[:-padding_length]\<close>.
\<close>

definition remove_padding :: "byte list \<Rightarrow> error + byte list" where
  "remove_padding plaintext =
     bindE (index plaintext (- 1)) (\<lambda>padding_length.
       if unat padding_length < 8
          \<and> list_all (\<lambda>b. b = padding_length) (slice_from plaintext (- int (unat padding_length)))
       then Inr (slice_to plaintext (- int (unat padding_length)))
       else Inr plaintext)"

definition decrypt :: "des \<Rightarrow> byte list \<Rightarrow> error + byte list" where
  "decrypt d ciphertext =
     (if length ciphertext mod 8 \<noteq> 0 then Inl ValueError
      else bindE (decrypt_blocks d ciphertext) remove_padding)"

section \<open>The key schedule as the specification words it\<close>

text \<open>
  These definitions follow the specification, not the code: a table is applied by
  \<open>output[i] = input[table[i] - 1]\<close>; the shift amount of round \<open>i\<close> is 1 for the rounds
  1, 2, 9 and 16 and 2 otherwise; the half of round \<open>i\<close> is the half of round \<open>i - 1\<close> rotated
  left by that amount (round 0 being the half of the key after \<open>PC1\<close>); subkey \<open>i\<close> is \<open>PC2\<close>
  applied to the two halves of round \<open>i\<close> put together.
\<close>

definition apply_table :: "int list \<Rightarrow> 'a list \<Rightarrow> 'a list" where
  "apply_table table xs = map (\<lambda>t. xs ! nat (t - 1)) table"

definition spec_shift :: "nat \<Rightarrow> nat" where
  "spec_shift i = (if i = 1 \<or> i = 2 \<or> i = 9 \<or> i = 16 then 1 else 2)"

primrec spec_half :: "bit list \<Rightarrow> nat \<Rightarrow> bit list" where
  "spec_half h 0 = h"
| "spec_half h (Suc i) = rotate (spec_shift (Suc i)) (spec_half h i)"

definition spec_subkey :: "bit list \<Rightarrow> nat \<Rightarrow> bit list" where
  "spec_subkey k i =
     apply_table PC2 (spec_half (take 28 (apply_table PC1 k)) i
                      @ spec_half (drop 28 (apply_table PC1 k)) i)"

section \<open>The round loop over a list of subkeys\<close>

text \<open>
  Two notions used in the proofs about \<open>encrypt_block\<close> and \<open>decrypt_block\<close>: one round
  on a pair of halves, and the block transform that runs the rounds over a given list of
  subkeys in list order. Both block functions are shown to be instances of it.
\<close>

definition round_on :: "bit list \<Rightarrow> bit list \<times> bit list \<Rightarrow> error + (bit list \<times> bit list)" where
  "round_on sk lr = (case lr of (l, r) \<Rightarrow> des_round l r sk)"

definition feistel :: "bit list list \<Rightarrow> bit list \<Rightarrow> error + bit list" where
  "feistel ks b =
     bindE (permute b IP) (\<lambda>block.
       bindE (foldE round_on ks (take 32 block, drop 32 block))
         (\<lambda>lr. case lr of (l, r) \<Rightarrow> permute (r @ l) IP_INV))"

section \<open>Bytes and blocks, for the proofs about byte strings\<close>

text \<open>
  The eight bits of one byte, high bit first, and the byte of eight bits; and the shape
  shared by the block loops of \<open>encrypt\<close> and \<open>decrypt\<close>: a function on 8-byte pieces
  applied at the offsets 0, 8, 16, ... and the results joined.
\<close>

definition bits_of_byte :: "byte \<Rightarrow> bit list" where
  "bits_of_byte w = map (\<lambda>i. bit w i) (rev [0..<8])"

definition byte_of_bits :: "bit list \<Rightarrow> byte" where
  "byte_of_bits bs = word_of_nat (horner_sum of_bool 2 (rev bs))"

definition blockwise :: "('a list \<Rightarrow> error + 'b list) \<Rightarrow> 'a list \<Rightarrow> error + 'b list" where
  "blockwise f xs =
     bindE (mapE (\<lambda>i. f (take 8 (drop i xs))) (range_step 0 (length xs) 8))
       (\<lambda>blocks. Inr (concat blocks))"

section \<open>Concrete inputs\<close>

text \<open>The key and the two blocks of the known-answer vector, as byte strings.\<close>

definition kat_key :: "byte list" where
  "kat_key = [0x13, 0x34, 0x57, 0x79, 0x9B, 0xBC, 0xDF, 0xF1]"

definition kat_plain :: "byte list" where
  "kat_plain = [0x01, 0x23, 0x45, 0x67, 0x89, 0xAB, 0xCD, 0xEF]"

definition kat_cipher :: "byte list" where
  "kat_cipher = [0x85, 0xE8, 0x13, 0x54, 0x0F, 0x0A, 0xB4, 0x05]"

text \<open>The cipher object built from the key of the known-answer vector.\<close>

definition kat_des :: des where
  "kat_des = \<lparr>key = bytes_to_bit_array kat_key,
              subkeys = map (spec_subkey (bytes_to_bit_array kat_key)) [1..<17]\<rparr>"

text \<open>A ciphertext block that this key decrypts to eight zero bytes.\<close>

definition zero_cipher :: "byte list" where
  "zero_cipher = [0x94, 0x8A, 0x43, 0xF9, 0x8A, 0x83, 0x4F, 0x7E]"

text \<open>An 8-byte message whose last byte has the value 1, and one ending in a zero byte.\<close>

definition trailing_one :: "byte list" where
  "trailing_one = [0x48, 0x65, 0x6C, 0x6C, 0x6F, 0x21, 0x21, 0x01]"

definition trailing_zero :: "byte list" where
  "trailing_zero = [0x48, 0x65, 0x6C, 0x6C, 0x6F, 0x21, 0x21, 0x00]"

section \<open>Facts about the error monad, subscripts and tables\<close>

lemma bindE_Inr [simp]: "bindE (Inr x) f = f x"
  by (simp add: bindE_def)

lemma bindE_Inl [simp]: "bindE (Inl e) f = Inl e"
  by (simp add: bindE_def)

lemma mapE_Inr: "(\<And>x. x \<in> set xs \<Longrightarrow> f x = Inr (g x)) \<Longrightarrow> mapE f xs = Inr (map g xs)"
  by (induction xs) simp_all

lemma mapE_length: "mapE f xs = Inr ys \<Longrightarrow> length ys = length xs"
proof (induction xs arbitrary: ys)
  case Nil
  then show ?case by simp
next
  case (Cons x xs)
  then show ?case
    by (auto simp: bindE_def split: sum.splits)
qed

lemma foldE_append: "foldE f (xs @ ys) s = bindE (foldE f xs s) (foldE f ys)"
  by (induction xs arbitrary: s) (simp_all add: bindE_def split: sum.splits)

lemma foldE_cong: "(\<And>x s. x \<in> set xs \<Longrightarrow> f x s = g x s) \<Longrightarrow> foldE f xs s = foldE g xs s"
  by (induction xs arbitrary: s) (simp_all add: bindE_def split: sum.splits)

lemma index_nat: "i < length xs \<Longrightarrow> index xs (int i) = Inr (xs ! i)"
  by (simp add: index_def)

lemma index_table: "1 \<le> t \<Longrightarrow> t \<le> int (length xs) \<Longrightarrow> index xs (t - 1) = Inr (xs ! nat (t - 1))"
  by (simp add: index_def)

text \<open>The same subscript by recursion on the list, as a code equation.\<close>

lemma index_code [code]:
  "index [] i = Inl IndexError"
  "index (x # xs) i =
     (if i = 0 then Inr x
      else if 0 < i then index xs (i - 1)
      else if - int (length xs) - 1 \<le> i then Inr ((x # xs) ! nat (1 + int (length xs) + i))
      else Inl IndexError)"
  by (auto simp: index_def nat_diff_distrib')

lemma permute_Inr:
  assumes "\<And>t. t \<in> set table \<Longrightarrow> 1 \<le> t \<and> t \<le> int (length block)"
  shows "permute block table = Inr (map (\<lambda>t. block ! nat (t - 1)) table)"
  unfolding permute_def by (rule mapE_Inr) (simp add: index_table assms)

lemma permute_length: "permute block table = Inr ys \<Longrightarrow> length ys = length table"
  unfolding permute_def by (rule mapE_length)

lemma IP_range_all: "list_all (\<lambda>t. 1 \<le> t \<and> t \<le> 64) IP"
  by (simp add: IP_def)

lemma IP_INV_range_all: "list_all (\<lambda>t. 1 \<le> t \<and> t \<le> 64) IP_INV"
  by (simp add: IP_INV_def)

lemma IP_range: "t \<in> set IP \<Longrightarrow> 1 \<le> t \<and> t \<le> 64"
  using IP_range_all by (simp add: list_all_iff)

lemma IP_INV_range: "t \<in> set IP_INV \<Longrightarrow> 1 \<le> t \<and> t \<le> 64"
  using IP_INV_range_all by (simp add: list_all_iff)

lemma IP_IP_INV_table: "map (\<lambda>t. nat (IP ! nat (t - 1) - 1)) IP_INV = [0..<64]"
  by code_simp

lemma IP_INV_IP_table: "map (\<lambda>t. nat (IP_INV ! nat (t - 1) - 1)) IP = [0..<64]"
  by code_simp

lemma length_IP [simp]: "length IP = 64"
  by (simp add: IP_def)

lemma length_IP_INV [simp]: "length IP_INV = 64"
  by (simp add: IP_INV_def)

lemma map_nth_table:
  assumes "map f table = [0..<length B]"
  shows "map (\<lambda>t. B ! f t) table = B"
proof -
  have "map (\<lambda>t. B ! f t) table = map ((!) B) (map f table)"
    by simp
  also have "\<dots> = B"
    unfolding assms by (rule map_nth)
  finally show ?thesis .
qed

lemma permute_permute:
  assumes r1: "\<And>t. t \<in> set T1 \<Longrightarrow> 1 \<le> t \<and> t \<le> int (length B)"
    and r2: "\<And>t. t \<in> set T2 \<Longrightarrow> 1 \<le> t \<and> t \<le> int (length T1)"
    and inv: "map (\<lambda>t. nat (T1 ! nat (t - 1) - 1)) T2 = [0..<length B]"
  shows "permute B T1 = Inr (map (\<lambda>t. B ! nat (t - 1)) T1)"
    and "permute (map (\<lambda>t. B ! nat (t - 1)) T1) T2 = Inr B"
proof -
  let ?X = "map (\<lambda>t. B ! nat (t - 1)) T1"
  show "permute B T1 = Inr ?X"
    by (rule permute_Inr) (rule r1)
  have "permute ?X T2 = Inr (map (\<lambda>t. ?X ! nat (t - 1)) T2)"
    by (rule permute_Inr) (simp add: r2)
  also have "map (\<lambda>t. ?X ! nat (t - 1)) T2 = map (\<lambda>t. B ! nat (T1 ! nat (t - 1) - 1)) T2"
  proof (rule map_cong [OF refl])
    fix t assume "t \<in> set T2"
    then have "nat (t - 1) < length T1"
      using r2 [of t] by linarith
    then show "?X ! nat (t - 1) = B ! nat (T1 ! nat (t - 1) - 1)"
      by simp
  qed
  also have "\<dots> = B"
    by (rule map_nth_table) (rule inv)
  finally show "permute ?X T2 = Inr B" .
qed

lemma permute_IP_Inr:
  "length B = 64 \<Longrightarrow> permute B IP = Inr (map (\<lambda>t. B ! nat (t - 1)) IP)"
  by (rule permute_Inr) (use IP_range in simp)

lemma permute_IP_INV_Inr:
  "length B = 64 \<Longrightarrow> permute B IP_INV = Inr (map (\<lambda>t. B ! nat (t - 1)) IP_INV)"
  by (rule permute_Inr) (use IP_INV_range in simp)

lemma permute_IP_then_IP_INV:
  "length B = 64 \<Longrightarrow> permute (map (\<lambda>t. B ! nat (t - 1)) IP) IP_INV = Inr B"
  by (rule permute_permute(2)) (use IP_range IP_INV_range IP_IP_INV_table in simp_all)

lemma permute_IP_INV_then_IP:
  "length B = 64 \<Longrightarrow> permute (map (\<lambda>t. B ! nat (t - 1)) IP_INV) IP = Inr B"
  by (rule permute_permute(2)) (use IP_range IP_INV_range IP_INV_IP_table in simp_all)

text \<open>
  Claim C9. The tables \<open>IP\<close> and \<open>IP_INV\<close> are inverse permutations: permuting a 64-element
  sequence with \<open>IP\<close> and the result with \<open>IP_INV\<close> gives the sequence back (and likewise in
  the other order); neither call raises.
\<close>

theorem IP_IP_INV_inverse:
  assumes "length B = 64"
  shows "bindE (permute B IP) (\<lambda>X. permute X IP_INV) = Inr B
       \<and> bindE (permute B IP_INV) (\<lambda>X. permute X IP) = Inr B"
proof
  note len = assms
  show "bindE (permute B IP) (\<lambda>X. permute X IP_INV) = Inr B"
    by (simp only: permute_IP_Inr [OF len] bindE_Inr permute_IP_then_IP_INV [OF len])
  show "bindE (permute B IP_INV) (\<lambda>X. permute X IP) = Inr B"
    by (simp only: permute_IP_INV_Inr [OF len] bindE_Inr permute_IP_INV_then_IP [OF len])
qed

theorem IP_IP_INV_inverse_witness:
  "length (replicate 32 True @ replicate 32 False) = 64
   \<and> bindE (permute (replicate 32 True @ replicate 32 False) IP) (\<lambda>X. permute X IP_INV)
       = Inr (replicate 32 True @ replicate 32 False)
   \<and> bindE (permute (replicate 32 True @ replicate 32 False) IP_INV) (\<lambda>X. permute X IP)
       = Inr (replicate 32 True @ replicate 32 False)"
proof -
  have len: "length (replicate 32 True @ replicate 32 False) = 64"
    by simp
  from IP_IP_INV_inverse [OF len] len show ?thesis
    by blast
qed

section \<open>The key schedule\<close>

lemma permute_apply_table:
  assumes "\<And>t. t \<in> set table \<Longrightarrow> 1 \<le> t \<and> t \<le> int (length block)"
  shows "permute block table = Inr (apply_table table block)"
  unfolding apply_table_def using assms by (rule permute_Inr)

lemma length_apply_table [simp]: "length (apply_table table xs) = length table"
  by (simp add: apply_table_def)

lemma PC1_range_all: "list_all (\<lambda>t. 1 \<le> t \<and> t \<le> 64) PC1"
  by (simp add: PC1_def)

lemma PC2_range_all: "list_all (\<lambda>t. 1 \<le> t \<and> t \<le> 56) PC2"
  by (simp add: PC2_def)

lemma length_PC1 [simp]: "length PC1 = 56"
  by (simp add: PC1_def)

lemma length_PC2 [simp]: "length PC2 = 48"
  by (simp add: PC2_def)

lemma permuted_choice_1_Inr:
  "length k = 64 \<Longrightarrow> permuted_choice_1 k = Inr (apply_table PC1 k)"
  unfolding permuted_choice_1_def
  by (rule permute_apply_table) (use PC1_range_all in \<open>simp add: list_all_iff\<close>)

lemma permuted_choice_2_Inr:
  "length cd = 56 \<Longrightarrow> permuted_choice_2 cd = Inr (apply_table PC2 cd)"
  unfolding permuted_choice_2_def
  by (rule permute_apply_table) (use PC2_range_all in \<open>simp add: list_all_iff\<close>)

lemma SHIFT_SCHEDULE_spec: "SHIFT_SCHEDULE = map spec_shift [1..<17]"
  by code_simp

lemma SHIFT_SCHEDULE_nth: "n < 16 \<Longrightarrow> SHIFT_SCHEDULE ! n = spec_shift (Suc n)"
  by (simp add: SHIFT_SCHEDULE_spec nth_map_upt del: upt_Suc)

lemma length_SHIFT_SCHEDULE [simp]: "length SHIFT_SCHEDULE = 16"
  by (simp add: SHIFT_SCHEDULE_def)

lemma spec_shift_le: "spec_shift i \<le> 2"
  by (simp add: spec_shift_def)

lemma length_spec_half [simp]: "length (spec_half h i) = length h"
  by (induction i) simp_all

lemma left_circular_shift_rotate:
  "shift < length bits \<Longrightarrow> left_circular_shift bits shift = rotate shift bits"
  by (simp add: left_circular_shift_def rotate_drop_take)

lemma subkey_step_spec:
  assumes "n < 16" "length c0 = 28" "length d0 = 28"
  shows "subkey_step n (spec_half c0 n, spec_half d0 n, sks)
         = Inr (spec_half c0 (Suc n), spec_half d0 (Suc n),
                sks @ [apply_table PC2 (spec_half c0 (Suc n) @ spec_half d0 (Suc n))])"
proof -
  have sh: "index SHIFT_SCHEDULE (int n) = Inr (spec_shift (Suc n))"
    using assms(1) by (simp add: index_nat SHIFT_SCHEDULE_nth)
  have lt: "spec_shift (Suc n) < 28"
    using spec_shift_le [of "Suc n"] by simp
  have c: "left_circular_shift (spec_half c0 n) (spec_shift (Suc n)) = spec_half c0 (Suc n)"
    using lt assms(2) by (simp add: left_circular_shift_rotate)
  have d: "left_circular_shift (spec_half d0 n) (spec_shift (Suc n)) = spec_half d0 (Suc n)"
    using lt assms(3) by (simp add: left_circular_shift_rotate)
  have len: "length (spec_half c0 (Suc n) @ spec_half d0 (Suc n)) = 56"
    using assms(2,3) by simp
  show ?thesis
    unfolding subkey_step_def
    by (simp only: prod.case sh bindE_Inr Let_def c d permuted_choice_2_Inr [OF len])
qed

lemma subkey_loop_spec:
  assumes "length c0 = 28" "length d0 = 28"
  shows "n \<le> 16 \<Longrightarrow>
         foldE subkey_step [0..<n] (c0, d0, [])
         = Inr (spec_half c0 n, spec_half d0 n,
                map (\<lambda>i. apply_table PC2 (spec_half c0 i @ spec_half d0 i)) [1..<Suc n])"
proof (induction n)
  case 0
  then show ?case by simp
next
  case (Suc n)
  then have n: "n < 16" by simp
  have "foldE subkey_step [0..<Suc n] (c0, d0, [])
        = bindE (foldE subkey_step [0..<n] (c0, d0, [])) (foldE subkey_step [n])"
    by (simp add: foldE_append)
  also have "\<dots> = subkey_step n (spec_half c0 n, spec_half d0 n,
                map (\<lambda>i. apply_table PC2 (spec_half c0 i @ spec_half d0 i)) [1..<Suc n])"
    using Suc n by (simp add: bindE_def split: sum.splits)
  also have "\<dots> = Inr (spec_half c0 (Suc n), spec_half d0 (Suc n),
                map (\<lambda>i. apply_table PC2 (spec_half c0 i @ spec_half d0 i)) [1..<Suc (Suc n)])"
    by (simp add: subkey_step_spec [OF n assms])
  finally show ?case .
qed

lemma generate_subkeys_spec:
  assumes "length k = 64"
  shows "generate_subkeys k = Inr (map (spec_subkey k) [1..<17])"
proof -
  have c: "length (take 28 (apply_table PC1 k)) = 28"
    and d: "length (drop 28 (apply_table PC1 k)) = 28"
    by simp_all
  have "foldE subkey_step [0..<16] (take 28 (apply_table PC1 k), drop 28 (apply_table PC1 k), [])
        = Inr (spec_half (take 28 (apply_table PC1 k)) 16, spec_half (drop 28 (apply_table PC1 k)) 16,
               map (spec_subkey k) [1..<17])"
    using subkey_loop_spec [OF c d, of 16] by (simp add: spec_subkey_def [abs_def] del: upt_Suc)
  then show ?thesis
    unfolding generate_subkeys_def
    by (simp only: permuted_choice_1_Inr [OF assms] bindE_Inr Let_def prod.case)
qed

lemma length_bytes_to_bit_array [simp]: "length (bytes_to_bit_array data) = 8 * length data"
  by (induction data) (simp_all add: bytes_to_bit_array_def)

lemma init_spec:
  assumes "length K = 8"
  shows "init K = Inr \<lparr>key = bytes_to_bit_array K,
                       subkeys = map (spec_subkey (bytes_to_bit_array K)) [1..<17]\<rparr>"
proof -
  have "length (bytes_to_bit_array K) = 64"
    using assms by simp
  then show ?thesis
    unfolding init_def using assms by (simp add: generate_subkeys_spec Let_def del: upt_Suc)
qed

lemma length_spec_subkey [simp]: "length (spec_subkey k i) = 48"
  by (simp add: spec_subkey_def)

lemma length_kat_key [simp]: "length kat_key = 8"
  by (simp add: kat_key_def)

text \<open>
  Claim C7. For a 64-bit key the schedule computed by \<open>generate_subkeys\<close> is, subkey by
  subkey for \<open>i = 1..16\<close>, the one the specification describes: both 28-bit halves rotated
  left by 1 position in rounds 1, 2, 9 and 16 and by 2 positions in the other rounds, the
  rotations accumulating, then \<open>PC2\<close> applied to the two halves joined.
\<close>

theorem generate_subkeys_follows_spec:
  assumes "length k = 64"
  shows "generate_subkeys k = Inr (map (spec_subkey k) [1..<17])"
  using assms by (rule generate_subkeys_spec)

theorem generate_subkeys_follows_spec_witness:
  "length (bytes_to_bit_array kat_key) = 64
   \<and> generate_subkeys (bytes_to_bit_array kat_key)
       = Inr (map (spec_subkey (bytes_to_bit_array kat_key)) [1..<17])"
proof -
  have len: "length (bytes_to_bit_array kat_key) = 64"
    by simp
  from generate_subkeys_follows_spec [OF len] len show ?thesis
    by blast
qed

text \<open>
  Claim C8. Constructing the cipher from any 8-byte key succeeds, and its key schedule has
  exactly 16 subkeys, each exactly 48 bits long.
\<close>

theorem subkeys_count_and_width:
  assumes "length K = 8"
  shows "\<exists>d. init K = Inr d \<and> length (subkeys d) = 16
             \<and> (\<forall>sk \<in> set (subkeys d). length sk = 48)"
  using assms by (auto simp: init_spec simp del: upt_Suc)

theorem subkeys_count_and_width_witness:
  "length kat_key = 8
   \<and> (\<exists>d. init kat_key = Inr d \<and> length (subkeys d) = 16
           \<and> (\<forall>sk \<in> set (subkeys d). length sk = 48))"
proof -
  have len: "length kat_key = 8"
    by simp
  from subkeys_count_and_width [OF len] len show ?thesis
    by blast
qed

section \<open>The round function and the block transform\<close>

lemma mapE_cong: "(\<And>x. x \<in> set xs \<Longrightarrow> f x = g x) \<Longrightarrow> mapE f xs = mapE g xs"
  by (induction xs) simp_all

lemma xor_bits_Inr:
  assumes "length a \<le> length b"
  shows "xor_bits a b = Inr (map (\<lambda>i. a ! i \<noteq> b ! i) [0..<length a])"
  unfolding xor_bits_def
  by (rule mapE_Inr) (use assms in \<open>simp add: index_nat\<close>)

lemma xor_bits_cancel:
  assumes "length a = length b"
  shows "map (\<lambda>i. (map (\<lambda>i. a ! i \<noteq> b ! i) [0..<length a]) ! i \<noteq> b ! i) [0..<length a] = a"
  by (rule nth_equalityI) (use assms in auto)

lemma index_Inl: "index xs i = Inl e \<Longrightarrow> e = IndexError"
  by (auto simp: index_def split: if_splits)

lemma mapE_Inl:
  assumes "x \<in> set xs" and "f x = Inl e"
    and "\<And>y e'. y \<in> set xs \<Longrightarrow> f y = Inl e' \<Longrightarrow> e' = e"
  shows "mapE f xs = Inl e"
  using assms
proof (induction xs)
  case Nil
  then show ?case by simp
next
  case (Cons z zs)
  show ?case
  proof (cases "f z")
    case (Inl e')
    with Cons.prems(3) [of z e'] show ?thesis
      by simp
  next
    case (Inr v)
    with Cons.prems(1,2) have "x \<in> set zs"
      by auto
    have "mapE f zs = Inl e"
    proof (rule Cons.IH)
      show "x \<in> set zs"
        by fact
      show "f x = Inl e"
        by (rule Cons.prems(2))
      show "e' = e" if "y \<in> set zs" "f y = Inl e'" for y e'
        by (rule Cons.prems(3) [of y e']) (use that in simp_all)
    qed
    with Inr show ?thesis
      by simp
  qed
qed

text \<open>The same function by one pass over both lists, as a code equation.\<close>

lemma xor_bits_code [code]:
  "xor_bits a b =
     (if length a \<le> length b then Inr (map (\<lambda>(x, y). x \<noteq> y) (zip a b))
      else Inl IndexError)"
proof (cases "length a \<le> length b")
  case True
  have "map (\<lambda>i. a ! i \<noteq> b ! i) [0..<length a] = map (\<lambda>(x, y). x \<noteq> y) (zip a b)"
    by (rule nth_equalityI) (use True in auto)
  with True show ?thesis
    by (simp add: xor_bits_Inr)
next
  case False
  let ?f = "\<lambda>i. bindE (index a (int i)) (\<lambda>x. bindE (index b (int i)) (\<lambda>y. Inr (x \<noteq> y)))"
  have "mapE ?f [0..<length a] = Inl IndexError"
  proof (rule mapE_Inl [of "length b"])
    show "length b \<in> set [0..<length a]"
      using False by simp
    show "?f (length b) = Inl IndexError"
      using False by (simp add: index_nat) (simp add: index_def)
    show "e' = IndexError" if "?f y = Inl e'" for y e'
      using that by (auto simp: bindE_def split: sum.splits dest: index_Inl)
  qed
  with False show ?thesis
    by (simp add: xor_bits_def)
qed

lemma E_tab_range_all: "list_all (\<lambda>t. 1 \<le> t \<and> t \<le> 32) E_tab"
  by (simp add: E_tab_def)

lemma P_tab_range_all: "list_all (\<lambda>t. 1 \<le> t \<and> t \<le> 32) P_tab"
  by (simp add: P_tab_def)

lemma length_E_tab [simp]: "length E_tab = 48"
  by (simp add: E_tab_def)

lemma length_P_tab [simp]: "length P_tab = 32"
  by (simp add: P_tab_def)

lemma expansion_Inr: "length r = 32 \<Longrightarrow> expansion r = Inr (apply_table E_tab r)"
  unfolding expansion_def
  by (rule permute_apply_table) (use E_tab_range_all in \<open>simp add: list_all_iff\<close>)

lemma permutation_p_Inr: "length x = 32 \<Longrightarrow> permutation_p x = Inr (apply_table P_tab x)"
  unfolding permutation_p_def
  by (rule permute_apply_table) (use P_tab_range_all in \<open>simp add: list_all_iff\<close>)

lemma S_BOXES_shape:
  "length S_BOXES = 8 \<and> list_all (\<lambda>box. length box = 4 \<and> list_all (\<lambda>line. length line = 16) box) S_BOXES"
  by (simp add: S_BOXES_def)

lemma S_BOXES_lookup:
  assumes "i < 8" "row < 4" "col < 16"
  shows "index S_BOXES (int i) = Inr (S_BOXES ! i)"
    and "index (S_BOXES ! i) (int row) = Inr (S_BOXES ! i ! row)"
    and "index (S_BOXES ! i ! row) (int col) = Inr (S_BOXES ! i ! row ! col)"
proof -
  have l1: "length S_BOXES = 8"
    using S_BOXES_shape by simp
  have "S_BOXES ! i \<in> set S_BOXES"
    using assms(1) l1 by simp
  then have l2: "length (S_BOXES ! i) = 4" and all: "list_all (\<lambda>line. length line = 16) (S_BOXES ! i)"
    using S_BOXES_shape by (simp_all add: list_all_iff)
  have "S_BOXES ! i ! row \<in> set (S_BOXES ! i)"
    using assms(2) l2 by simp
  then have l3: "length (S_BOXES ! i ! row) = 16"
    using all by (simp add: list_all_iff)
  show "index S_BOXES (int i) = Inr (S_BOXES ! i)"
    using assms(1) l1 by (simp add: index_nat)
  show "index (S_BOXES ! i) (int row) = Inr (S_BOXES ! i ! row)"
    using assms(2) l2 by (simp add: index_nat)
  show "index (S_BOXES ! i ! row) (int col) = Inr (S_BOXES ! i ! row ! col)"
    using assms(3) l3 by (simp add: index_nat)
qed

lemma row_bound: "(push_bit 1 (of_bool g0) OR of_bool g5 :: nat) < 4"
  by (cases g0; cases g5) simp_all

lemma col_bound:
  "(push_bit 3 (of_bool g1) OR push_bit 2 (of_bool g2) OR push_bit 1 (of_bool g3) OR of_bool g4 :: nat) < 16"
  by (cases g1; cases g2; cases g3; cases g4) simp_all

lemma s_box_group_ok:
  assumes "i < 8" "length grp = 6"
  shows "\<exists>out. s_box_group (i, grp) = Inr out \<and> length out = 4"
proof -
  have ix: "index grp 0 = Inr (grp ! 0)" "index grp 1 = Inr (grp ! 1)"
    "index grp 2 = Inr (grp ! 2)" "index grp 3 = Inr (grp ! 3)"
    "index grp 4 = Inr (grp ! 4)" "index grp 5 = Inr (grp ! 5)"
    using assms(2) by (simp_all add: index_def)
  define row where "row = (push_bit 1 (of_bool (grp ! 0)) OR of_bool (grp ! 5) :: nat)"
  define col where "col = (push_bit 3 (of_bool (grp ! 1)) OR push_bit 2 (of_bool (grp ! 2))
                      OR push_bit 1 (of_bool (grp ! 3)) OR of_bool (grp ! 4) :: nat)"
  have r: "row < 4"
    unfolding row_def by (rule row_bound)
  have c: "col < 16"
    unfolding col_def by (rule col_bound)
  have "s_box_group (i, grp) = Inr (map (\<lambda>j. bit (S_BOXES ! i ! row ! col) j) (rev [0..<4]))"
    unfolding s_box_group_def
    by (simp only: prod.case ix bindE_Inr Let_def row_def [symmetric] col_def [symmetric]
        S_BOXES_lookup [OF assms(1) r c])
  then show ?thesis
    by simp
qed

lemma mapE_ex:
  assumes "\<And>x. x \<in> set xs \<Longrightarrow> \<exists>y. f x = Inr y \<and> P y"
  shows "\<exists>ys. mapE f xs = Inr ys \<and> length ys = length xs \<and> (\<forall>y \<in> set ys. P y)"
  using assms
proof (induction xs)
  case Nil
  then show ?case by simp
next
  case (Cons x xs)
  from Cons.prems [of x] obtain y where y: "f x = Inr y" "P y"
    by auto
  from Cons.IH Cons.prems obtain ys
    where ys: "mapE f xs = Inr ys" "length ys = length xs" "\<forall>y \<in> set ys. P y"
    by auto
  show ?case
    using y ys by simp
qed

lemma range_step_0_48_6: "range_step 0 48 6 = [0, 6, 12, 18, 24, 30, 36, 42]"
  by code_simp

lemma length_concat_const:
  "(\<forall>y \<in> set ys. length y = n) \<Longrightarrow> length (concat ys) = n * length ys"
  by (induction ys) simp_all

lemma s_box_substitution_ok:
  assumes "length block = 48"
  shows "\<exists>out. s_box_substitution block = Inr out \<and> length out = 32"
proof -
  let ?groups = "map (\<lambda>i. take 6 (drop i block)) (range_step 0 48 6)"
  have len: "length ?groups = 8"
    by (simp add: range_step_0_48_6)
  have six: "\<forall>g \<in> set ?groups. length g = 6"
    using assms by (simp add: range_step_0_48_6)
  have "\<exists>y. s_box_group x = Inr y \<and> length y = 4" if "x \<in> set (enumerate 0 ?groups)" for x
  proof -
    obtain i g where x: "x = (i, g)"
      by (cases x)
    from that have i: "i < length ?groups" and g: "g = ?groups ! i"
      unfolding x in_set_enumerate_eq by simp_all
    from i have "i < 8"
      using len by simp
    have "g \<in> set ?groups"
      unfolding g using i by (rule nth_mem)
    with six have "length g = 6"
      by blast
    with \<open>i < 8\<close> show ?thesis
      unfolding x by (rule s_box_group_ok)
  qed
  from mapE_ex [of "enumerate 0 ?groups" s_box_group "\<lambda>y. length y = 4", OF this]
  obtain outs where outs: "mapE s_box_group (enumerate 0 ?groups) = Inr outs"
    "length outs = 8" "\<forall>y \<in> set outs. length y = 4"
    using len by auto
  have "length (concat outs) = 32"
    using length_concat_const [OF outs(3)] outs(2) by simp
  then show ?thesis
    unfolding s_box_substitution_def Let_def by (simp only: outs(1) bindE_Inr) simp
qed

lemma f_function_ok:
  assumes "length r = 32" "length sk = 48"
  shows "\<exists>out. f_function r sk = Inr out \<and> length out = 32"
proof -
  let ?x = "map (\<lambda>i. apply_table E_tab r ! i \<noteq> sk ! i) [0..<length (apply_table E_tab r)]"
  have x: "xor_bits (apply_table E_tab r) sk = Inr ?x"
    by (rule xor_bits_Inr) (simp add: assms(2))
  have "length ?x = 48"
    by simp
  from s_box_substitution_ok [OF this] obtain s
    where s: "s_box_substitution ?x = Inr s" "length s = 32"
    by blast
  show ?thesis
    unfolding f_function_def
    by (simp only: expansion_Inr [OF assms(1)] bindE_Inr x s(1) permutation_p_Inr [OF s(2)])
       simp
qed

lemma des_round_ok:
  assumes "length l = 32" "length r = 32" "length sk = 48"
  shows "\<exists>nr. des_round l r sk = Inr (r, nr) \<and> length nr = 32 \<and> des_round nr r sk = Inr (r, l)"
proof -
  from f_function_ok [OF assms(2,3)] obtain f
    where f: "f_function r sk = Inr f" "length f = 32"
    by blast
  let ?nr = "map (\<lambda>i. l ! i \<noteq> f ! i) [0..<length l]"
  have lf: "length l = length f"
    using assms(1) f(2) by simp
  have nr: "xor_bits l f = Inr ?nr"
    by (rule xor_bits_Inr) (simp add: lf)
  have "xor_bits ?nr f = Inr (map (\<lambda>i. ?nr ! i \<noteq> f ! i) [0..<length ?nr])"
    by (rule xor_bits_Inr) (simp add: lf)
  also have "map (\<lambda>i. ?nr ! i \<noteq> f ! i) [0..<length ?nr] = l"
    using xor_bits_cancel [OF lf] by simp
  finally have undo: "xor_bits ?nr f = Inr l" .
  have "des_round l r sk = Inr (r, ?nr)"
    unfolding des_round_def by (simp only: f(1) bindE_Inr nr)
  moreover have "des_round ?nr r sk = Inr (r, l)"
    unfolding des_round_def by (simp only: f(1) bindE_Inr undo)
  moreover have "length ?nr = 32"
    using assms(1) by simp
  ultimately show ?thesis
    by blast
qed

lemma bindE_return [simp]: "bindE m Inr = m"
  by (simp add: bindE_def split: sum.splits)

lemma foldE_Nil_fun [simp]: "foldE f [] = Inr"
  by (rule ext) simp

lemma foldE_single_fun [simp]: "foldE f [x] = f x"
  by (rule ext) simp

lemma foldE_index:
  "foldE (\<lambda>i s. bindE (index ks (int i)) (\<lambda>k. g k s)) [0..<length ks] s = foldE g ks s"
proof (induction ks arbitrary: s rule: rev_induct)
  case Nil
  then show ?case by simp
next
  case (snoc k ks)
  let ?F = "\<lambda>i s. bindE (index (ks @ [k]) (int i)) (\<lambda>k. g k s)"
  have "foldE ?F [0..<length ks] s
        = foldE (\<lambda>i s. bindE (index ks (int i)) (\<lambda>k. g k s)) [0..<length ks] s"
    by (rule foldE_cong) (simp add: index_nat nth_append)
  then have first: "foldE ?F [0..<length ks] s = foldE g ks s"
    by (simp only: snoc.IH)
  have last: "foldE ?F [length ks] = g k"
    by (rule ext) (simp add: index_nat del: foldE_single_fun)
  have "foldE ?F [0..<length (ks @ [k])] s = bindE (foldE ?F [0..<length ks] s) (foldE ?F [length ks])"
    by (simp add: foldE_append)
  also have "\<dots> = bindE (foldE g ks s) (g k)"
    by (simp only: first last)
  also have "\<dots> = foldE g (ks @ [k]) s"
    by (simp add: foldE_append)
  finally show ?case .
qed

lemma rounds_forward:
  assumes "length ks = 16"
  shows "foldE (\<lambda>i lr. case lr of (l, r) \<Rightarrow>
                  bindE (index ks (int i)) (\<lambda>sk. des_round l r sk)) [0..<16] s
         = foldE round_on ks s"
proof -
  have "foldE (\<lambda>i lr. case lr of (l, r) \<Rightarrow>
                  bindE (index ks (int i)) (\<lambda>sk. des_round l r sk)) [0..<length ks] s
        = foldE (\<lambda>i s. bindE (index ks (int i)) (\<lambda>k. round_on k s)) [0..<length ks] s"
    by (rule foldE_cong) (simp add: round_on_def split: prod.splits)
  also have "\<dots> = foldE round_on ks s"
    by (rule foldE_index)
  finally show ?thesis
    unfolding assms .
qed

lemma rounds_backward:
  assumes "length ks = 16"
  shows "foldE (\<lambda>i lr. case lr of (l, r) \<Rightarrow>
                  bindE (index ks (15 - int i)) (\<lambda>sk. des_round l r sk)) [0..<16] s
         = foldE round_on (rev ks) s"
proof -
  have ix: "index ks (15 - int i) = index (rev ks) (int i)" if "i < 16" for i
  proof -
    have "15 - int i = int (15 - i)"
      using that by simp
    then have "index ks (15 - int i) = Inr (ks ! (15 - i))"
      using that assms by (simp only: index_nat)
    moreover have "index (rev ks) (int i) = Inr (ks ! (15 - i))"
      using that assms by (simp add: index_nat rev_nth)
    ultimately show ?thesis
      by simp
  qed
  have "foldE (\<lambda>i lr. case lr of (l, r) \<Rightarrow>
                  bindE (index ks (15 - int i)) (\<lambda>sk. des_round l r sk)) [0..<16] s
        = foldE (\<lambda>i lr. case lr of (l, r) \<Rightarrow>
                  bindE (index (rev ks) (int i)) (\<lambda>sk. des_round l r sk)) [0..<16] s"
    by (rule foldE_cong) (simp add: ix)
  also have "\<dots> = foldE round_on (rev ks) s"
    by (rule rounds_forward) (simp add: assms)
  finally show ?thesis .
qed

lemma encrypt_block_feistel:
  "length (subkeys d) = 16 \<Longrightarrow> encrypt_block d b = feistel (subkeys d) b"
  unfolding encrypt_block_def feistel_def initial_permutation_def inverse_initial_permutation_def
    Let_def
  by (simp only: rounds_forward)

lemma decrypt_block_feistel:
  "length (subkeys d) = 16 \<Longrightarrow> decrypt_block d b = feistel (rev (subkeys d)) b"
  unfolding decrypt_block_def feistel_def initial_permutation_def inverse_initial_permutation_def
    Let_def
  by (simp only: rounds_backward)

lemma rounds_invert:
  assumes "\<forall>sk \<in> set ks. length sk = 48" "length l = 32" "length r = 32"
  shows "\<exists>l' r'. foldE round_on ks (l, r) = Inr (l', r') \<and> length l' = 32 \<and> length r' = 32
            \<and> foldE round_on (rev ks) (r', l') = Inr (r, l)"
  using assms
proof (induction ks arbitrary: l r)
  case Nil
  then show ?case by simp
next
  case (Cons k ks)
  from Cons.prems have k: "length k = 48"
    by simp
  from des_round_ok [OF Cons.prems(2,3) k] obtain nr
    where nr: "des_round l r k = Inr (r, nr)" "length nr = 32" "des_round nr r k = Inr (r, l)"
    by blast
  from Cons.IH [of r nr] Cons.prems nr(2) obtain l' r'
    where ih: "foldE round_on ks (r, nr) = Inr (l', r')" "length l' = 32" "length r' = 32"
      "foldE round_on (rev ks) (r', l') = Inr (nr, r)"
    by auto
  have "foldE round_on (k # ks) (l, r) = Inr (l', r')"
    by (simp add: round_on_def nr(1) ih(1))
  moreover have "foldE round_on (rev (k # ks)) (r', l') = Inr (r, l)"
    by (simp add: foldE_append ih(4) round_on_def nr(3))
  ultimately show ?case
    using ih(2,3) by blast
qed

lemma feistel_invert:
  assumes ks: "\<forall>sk \<in> set ks. length sk = 48" and b: "length b = 64"
  shows "\<exists>c. feistel ks b = Inr c \<and> length c = 64 \<and> feistel (rev ks) c = Inr b"
proof -
  let ?p = "map (\<lambda>t. b ! nat (t - 1)) IP"
  have p: "permute b IP = Inr ?p"
    by (rule permute_IP_Inr [OF b])
  have h1: "length (take 32 ?p) = 32" and h2: "length (drop 32 ?p) = 32"
    by simp_all
  have "\<exists>l' r'. foldE round_on ks (take 32 ?p, drop 32 ?p) = Inr (l', r')
            \<and> length l' = 32 \<and> length r' = 32
            \<and> foldE round_on (rev ks) (r', l') = Inr (drop 32 ?p, take 32 ?p)"
    by (rule rounds_invert [OF ks h1 h2])
  then obtain l' r'
    where rs: "foldE round_on ks (take 32 ?p, drop 32 ?p) = Inr (l', r')"
      "length l' = 32" "length r' = 32"
      "foldE round_on (rev ks) (r', l') = Inr (drop 32 ?p, take 32 ?p)"
    by (elim exE conjE)
  let ?c = "map (\<lambda>t. (r' @ l') ! nat (t - 1)) IP_INV"
  have len: "length (r' @ l') = 64"
    using rs(2,3) by simp
  have c: "permute (r' @ l') IP_INV = Inr ?c"
    by (rule permute_IP_INV_Inr [OF len])
  have enc: "feistel ks b = Inr ?c"
    unfolding feistel_def by (simp only: p bindE_Inr rs(1) prod.case c)
  have c': "permute ?c IP = Inr (r' @ l')"
    by (rule permute_IP_INV_then_IP [OF len])
  have halves: "take 32 (r' @ l') = r'" "drop 32 (r' @ l') = l'"
    using rs(2,3) by simp_all
  have "permute (take 32 ?p @ drop 32 ?p) IP_INV = Inr b"
    unfolding append_take_drop_id by (rule permute_IP_then_IP_INV [OF b])
  then have dec: "feistel (rev ks) ?c = Inr b"
    unfolding feistel_def by (simp only: c' bindE_Inr halves rs(4) prod.case)
  have "length ?c = 64"
    by simp
  with enc dec show ?thesis
    by blast
qed

section \<open>Block encryption and decryption\<close>

lemma length_kat_plain [simp]: "length kat_plain = 8"
  by (simp add: kat_plain_def)

text \<open>
  Claim C3. For every 8-byte key and every 64-bit block, \<open>encrypt_block\<close> returns a block
  that \<open>decrypt_block\<close> maps back to the original one, and \<open>decrypt_block\<close> is
  \<open>encrypt_block\<close> run with the list of the 16 subkeys reversed (subkey 16 first).
\<close>

theorem block_round_trip:
  assumes "length K = 8" and "length B = 64"
  shows "\<exists>d C. init K = Inr d \<and> encrypt_block d B = Inr C \<and> decrypt_block d C = Inr B
           \<and> (\<forall>X. decrypt_block d X = encrypt_block (d\<lparr>subkeys := rev (subkeys d)\<rparr>) X)"
proof -
  let ?ks = "map (spec_subkey (bytes_to_bit_array K)) [1..<17]"
  let ?d = "\<lparr>key = bytes_to_bit_array K, subkeys = ?ks\<rparr>"
  have d: "init K = Inr ?d"
    by (rule init_spec [OF assms(1)])
  have len: "length (subkeys ?d) = 16"
    by simp
  have w: "\<forall>sk \<in> set (subkeys ?d). length sk = 48"
    by (simp del: upt_Suc)
  from feistel_invert [OF w assms(2)] obtain C
    where C: "feistel (subkeys ?d) B = Inr C" "feistel (rev (subkeys ?d)) C = Inr B"
    by blast
  have enc: "encrypt_block ?d B = Inr C"
    by (simp only: encrypt_block_feistel [OF len] C(1))
  have dec: "decrypt_block ?d C = Inr B"
    by (simp only: decrypt_block_feistel [OF len] C(2))
  have "decrypt_block ?d X = encrypt_block (?d\<lparr>subkeys := rev (subkeys ?d)\<rparr>) X" for X
  proof -
    have "length (subkeys (?d\<lparr>subkeys := rev (subkeys ?d)\<rparr>)) = 16"
      by simp
    from encrypt_block_feistel [OF this] decrypt_block_feistel [OF len] show ?thesis
      by simp
  qed
  with d enc dec show ?thesis
    by blast
qed

theorem block_round_trip_witness:
  "length kat_key = 8 \<and> length (bytes_to_bit_array kat_plain) = 64
   \<and> (\<exists>d C. init kat_key = Inr d \<and> encrypt_block d (bytes_to_bit_array kat_plain) = Inr C
          \<and> decrypt_block d C = Inr (bytes_to_bit_array kat_plain)
          \<and> (\<forall>X. decrypt_block d X = encrypt_block (d\<lparr>subkeys := rev (subkeys d)\<rparr>) X))"
proof -
  have k: "length kat_key = 8"
    by simp
  have b: "length (bytes_to_bit_array kat_plain) = 64"
    by simp
  from block_round_trip [OF k b] k b show ?thesis
    by blast
qed

lemma init_kat_key: "init kat_key = Inr kat_des"
  unfolding kat_des_def by (rule init_spec) simp

lemma encrypt_block_kat_plain:
  "encrypt_block kat_des (bytes_to_bit_array kat_plain) = Inr (bytes_to_bit_array kat_cipher)"
  by code_simp

text \<open>
  Claim C2. With the key bytes 13 34 57 79 9B BC DF F1, \<open>encrypt_block\<close> maps the bits of the
  block 01 23 45 67 89 AB CD EF to the bits of 85 E8 13 54 0F 0A B4 05.
\<close>

theorem known_answer:
  "bindE (init kat_key) (\<lambda>d. encrypt_block d (bytes_to_bit_array kat_plain))
   = Inr (bytes_to_bit_array kat_cipher)"
  by (simp add: init_kat_key encrypt_block_kat_plain)

section \<open>Bytes, bits and the block loops\<close>

lemma foldE_Inr:
  "(\<And>x s. x \<in> set xs \<Longrightarrow> f x s = Inr (g x s)) \<Longrightarrow> foldE f xs s = Inr (fold g xs s)"
  by (induction xs arbitrary: s) simp_all

lemma shift_in_bit: "push_bit 1 (acc::nat) OR of_bool b = of_bool b + 2 * acc"
  by (cases b) (simp_all add: or_Suc_0_eq)

lemma fold_shift_in:
  "fold (\<lambda>j (acc::nat). push_bit 1 acc OR of_bool (f j)) js acc
   = horner_sum of_bool 2 (rev (map f js)) + acc * 2 ^ length js"
proof (induction js arbitrary: acc)
  case Nil
  then show ?case by simp
next
  case (Cons j js)
  have "fold (\<lambda>j (acc::nat). push_bit 1 acc OR of_bool (f j)) (j # js) acc
        = fold (\<lambda>j (acc::nat). push_bit 1 acc OR of_bool (f j)) js (of_bool (f j) + 2 * acc)"
    by (simp only: fold_simps o_apply shift_in_bit)
  also have "\<dots> = horner_sum of_bool 2 (rev (map f js)) + (of_bool (f j) + 2 * acc) * 2 ^ length js"
    by (rule Cons.IH)
  also have "\<dots> = horner_sum of_bool 2 (rev (map f (j # js))) + acc * 2 ^ length (j # js)"
    by (simp add: horner_sum_append algebra_simps)
  finally show ?case .
qed

lemma take_drop_as_map:
  "i + n \<le> length xs \<Longrightarrow> take n (drop i xs) = map (\<lambda>j. xs ! (i + j)) [0..<n]"
  by (rule nth_equalityI) simp_all

lemma byte_loop_Inr:
  assumes "i + 8 \<le> length bits"
  shows "bindE (foldE (\<lambda>j byte. bindE (index bits (int (i + j)))
                                  (\<lambda>b. Inr (push_bit 1 byte OR of_bool b)))
                             [0..<8] (0::nat))
                      (\<lambda>byte. Inr (word_of_nat byte))
         = Inr (byte_of_bits (take 8 (drop i bits)))"
proof -
  have "foldE (\<lambda>j byte. bindE (index bits (int (i + j)))
                                  (\<lambda>b. Inr (push_bit 1 byte OR of_bool b))) [0..<8] (0::nat)
        = Inr (fold (\<lambda>j acc. push_bit 1 acc OR of_bool (bits ! (i + j))) [0..<8] 0)"
  proof (rule foldE_Inr)
    fix j :: nat and s :: nat
    assume "j \<in> set [0..<8]"
    then have "i + j < length bits"
      using assms by simp
    then show "bindE (index bits (int (i + j))) (\<lambda>b. Inr (push_bit 1 s OR of_bool b))
               = Inr (push_bit 1 s OR of_bool (bits ! (i + j)))"
      by (simp only: index_nat bindE_Inr)
  qed
  also have "fold (\<lambda>j (acc::nat). push_bit 1 acc OR of_bool (bits ! (i + j))) [0..<8] 0
             = horner_sum of_bool 2 (rev (map (\<lambda>j. bits ! (i + j)) [0..<8]))"
    by (simp only: fold_shift_in)
  also have "map (\<lambda>j. bits ! (i + j)) [0..<8] = take 8 (drop i bits)"
    by (rule take_drop_as_map [OF assms, symmetric])
  finally show ?thesis
    by (simp add: byte_of_bits_def)
qed

lemma range_step_8: "range_step 0 (8 * n) 8 = map (\<lambda>k. 8 * k) [0..<n]"
  by (simp add: range_step_def)

lemma bit_array_to_bytes_Inr:
  assumes "length bits = 8 * n"
  shows "bit_array_to_bytes bits = Inr (map (\<lambda>k. byte_of_bits (take 8 (drop (8 * k) bits))) [0..<n])"
proof -
  have "mapE (\<lambda>i. bindE (foldE (\<lambda>j byte. bindE (index bits (int (i + j)))
                                  (\<lambda>b. Inr (push_bit 1 byte OR of_bool b)))
                             [0..<8] (0::nat))
                      (\<lambda>byte. Inr (word_of_nat byte)))
          (map (\<lambda>k. 8 * k) [0..<n])
        = Inr (map (\<lambda>i. byte_of_bits (take 8 (drop i bits))) (map (\<lambda>k. 8 * k) [0..<n]))"
  proof (rule mapE_Inr)
    fix i assume "i \<in> set (map (\<lambda>k. 8 * k) [0..<n])"
    then have "i + 8 \<le> length bits"
      using assms by auto
    then show "bindE (foldE (\<lambda>j byte. bindE (index bits (int (i + j)))
                                  (\<lambda>b. Inr (push_bit 1 byte OR of_bool b)))
                             [0..<8] (0::nat))
                      (\<lambda>byte. Inr (word_of_nat byte))
         = Inr (byte_of_bits (take 8 (drop i bits)))"
      by (rule byte_loop_Inr)
  qed
  then show ?thesis
    unfolding bit_array_to_bytes_def assms range_step_8 by (simp add: comp_def)
qed

lemma byte_of_bits_of_byte [simp]: "byte_of_bits (bits_of_byte w) = w"
proof -
  have "map (bit w) [0..<8] = map (bit (unat w)) [0..<8]"
    by (simp add: bit_unsigned_iff)
  then have "horner_sum of_bool 2 (map (bit w) [0..<8]) = take_bit 8 (unat w)"
    by (simp only: horner_sum_bit_eq_take_bit)
  also have "\<dots> = unat w"
  proof -
    have "unat w < 2 ^ 8"
      using unsigned_less [of w, where ?'a = nat] by simp
    then show ?thesis
      by (simp only: take_bit_nat_eq_self)
  qed
  finally show ?thesis
    by (simp add: byte_of_bits_def bits_of_byte_def rev_map)
qed

lemma length_bits_of_byte [simp]: "length (bits_of_byte w) = 8"
  by (simp add: bits_of_byte_def)

lemma bits_of_byte_of_bits [simp]:
  assumes "length bs = 8"
  shows "bits_of_byte (byte_of_bits bs) = bs"
proof (rule nth_equalityI)
  show "length (bits_of_byte (byte_of_bits bs)) = length bs"
    using assms by simp
next
  fix k assume "k < length (bits_of_byte (byte_of_bits bs))"
  then have k: "k < 8"
    by simp
  then have "bits_of_byte (byte_of_bits bs) ! k = bit (byte_of_bits bs) (7 - k)"
    by (simp add: bits_of_byte_def rev_nth)
  also have "\<dots> = bs ! k"
    using k assms by (auto simp: byte_of_bits_def bit_simps rev_nth)
  finally show "bits_of_byte (byte_of_bits bs) ! k = bs ! k" .
qed

lemma bytes_to_bit_array_concat: "bytes_to_bit_array bs = concat (map bits_of_byte bs)"
  by (simp add: bytes_to_bit_array_def bits_of_byte_def [abs_def])

lemma chunk_of_concat:
  assumes "\<forall>xs \<in> set xss. length xs = 8"
  shows "k < length xss \<Longrightarrow> take 8 (drop (8 * k) (concat xss)) = xss ! k"
  using assms
proof (induction xss arbitrary: k)
  case Nil
  then show ?case by simp
next
  case (Cons x xss)
  then have x: "length x = 8"
    by simp
  show ?case
  proof (cases k)
    case 0
    then show ?thesis
      using x by simp
  next
    case (Suc k')
    then have "take 8 (drop (8 * k) (concat (x # xss))) = take 8 (drop (8 * k') (concat xss))"
      using x by simp
    also have "\<dots> = xss ! k'"
      using Cons Suc by simp
    finally show ?thesis
      using Suc by simp
  qed
qed

lemma concat_chunks:
  "length xs = 8 * n \<Longrightarrow> concat (map (\<lambda>k. take 8 (drop (8 * k) xs)) [0..<n]) = xs"
proof (induction n arbitrary: xs)
  case 0
  then show ?case by simp
next
  case (Suc n)
  have a: "map (\<lambda>k. take 8 (drop (8 * k) xs)) [0..<n]
        = map (\<lambda>k. take 8 (drop (8 * k) (take (8 * n) xs))) [0..<n]"
  proof (rule map_cong [OF refl])
    fix k assume "k \<in> set [0..<n]"
    then have "8 * k + 8 \<le> 8 * n"
      by simp
    then show "take 8 (drop (8 * k) xs) = take 8 (drop (8 * k) (take (8 * n) xs))"
      by (simp add: drop_take min_def)
  qed
  have b: "concat (map (\<lambda>k. take 8 (drop (8 * k) (take (8 * n) xs))) [0..<n]) = take (8 * n) xs"
    by (rule Suc.IH) (use Suc.prems in simp)
  have c: "take 8 (drop (8 * n) xs) = drop (8 * n) xs"
    using Suc.prems by simp
  have "concat (map (\<lambda>k. take 8 (drop (8 * k) xs)) [0..<Suc n])
        = concat (map (\<lambda>k. take 8 (drop (8 * k) xs)) [0..<n]) @ take 8 (drop (8 * n) xs)"
    by simp
  also have "\<dots> = take (8 * n) xs @ drop (8 * n) xs"
    by (simp only: a b c)
  finally show ?case
    by simp
qed

lemma bit_array_to_bytes_of_bytes [simp]:
  "bit_array_to_bytes (bytes_to_bit_array bs) = Inr bs"
proof -
  have all8: "\<forall>xs \<in> set (map bits_of_byte bs). length xs = 8"
    by simp
  have "map (\<lambda>k. byte_of_bits (take 8 (drop (8 * k) (bytes_to_bit_array bs)))) [0..<length bs]
        = map (\<lambda>k. bs ! k) [0..<length bs]"
  proof (rule map_cong [OF refl])
    fix k assume "k \<in> set [0..<length bs]"
    then have k: "k < length (map bits_of_byte bs)"
      by simp
    show "byte_of_bits (take 8 (drop (8 * k) (bytes_to_bit_array bs))) = bs ! k"
      unfolding bytes_to_bit_array_concat chunk_of_concat [OF all8 k] using k by simp
  qed
  then show ?thesis
    by (simp add: bit_array_to_bytes_Inr [of _ "length bs"] map_nth)
qed

lemma bytes_of_bit_array:
  assumes "length bits = 8 * n"
  shows "\<exists>ys. bit_array_to_bytes bits = Inr ys \<and> length ys = n \<and> bytes_to_bit_array ys = bits"
proof -
  let ?ys = "map (\<lambda>k. byte_of_bits (take 8 (drop (8 * k) bits))) [0..<n]"
  have "map bits_of_byte ?ys
        = map (\<lambda>k. bits_of_byte (byte_of_bits (take 8 (drop (8 * k) bits)))) [0..<n]"
    by (simp add: comp_def)
  also have "\<dots> = map (\<lambda>k. take 8 (drop (8 * k) bits)) [0..<n]"
  proof (rule map_cong [OF refl])
    fix k assume "k \<in> set [0..<n]"
    then have "length (take 8 (drop (8 * k) bits)) = 8"
      using assms by simp
    then show "bits_of_byte (byte_of_bits (take 8 (drop (8 * k) bits))) = take 8 (drop (8 * k) bits)"
      by (rule bits_of_byte_of_bits)
  qed
  finally have m: "map bits_of_byte ?ys = map (\<lambda>k. take 8 (drop (8 * k) bits)) [0..<n]" .
  have "bytes_to_bit_array ?ys = concat (map bits_of_byte ?ys)"
    by (rule bytes_to_bit_array_concat)
  also have "\<dots> = bits"
    unfolding m by (rule concat_chunks [OF assms])
  finally have "bytes_to_bit_array ?ys = bits" .
  moreover have "bit_array_to_bytes bits = Inr ?ys"
    by (rule bit_array_to_bytes_Inr [OF assms])
  moreover have "length ?ys = n"
    by simp
  ultimately show ?thesis
    by blast
qed

lemma mapE_map: "mapE f (map g xs) = mapE (\<lambda>x. f (g x)) xs"
  by (induction xs) simp_all

lemma blockwise_Nil [simp]: "blockwise f [] = Inr []"
  by (simp add: blockwise_def range_step_def)

lemma range_step_8_Suc:
  "length blk = 8 \<Longrightarrow>
   range_step 0 (length (blk @ rest)) 8 = 0 # map (\<lambda>i. i + 8) (range_step 0 (length rest) 8)"
proof -
  assume "length blk = 8"
  then have "(length (blk @ rest) - 0 + 8 - 1) div 8 = Suc ((length rest - 0 + 8 - 1) div 8)"
    by simp
  then show ?thesis
    unfolding range_step_def
    by (simp only: upt_conv_Cons [OF zero_less_Suc] map_Suc_upt [symmetric] list.map map_map)
       (simp add: comp_def)
qed

lemma blockwise_append:
  assumes "length blk = 8"
  shows "blockwise f (blk @ rest)
         = bindE (f blk) (\<lambda>y. bindE (blockwise f rest) (\<lambda>ys. Inr (y @ ys)))"
proof -
  have shift: "take 8 (drop (i + 8) (blk @ rest)) = take 8 (drop i rest)" for i
    using assms by simp
  have first: "take 8 (drop 0 (blk @ rest)) = blk"
    using assms by simp
  have "mapE (\<lambda>i. f (take 8 (drop i (blk @ rest)))) (range_step 0 (length (blk @ rest)) 8)
        = bindE (f blk) (\<lambda>y. bindE (mapE (\<lambda>i. f (take 8 (drop i rest)))
                                      (range_step 0 (length rest) 8))
                                (\<lambda>ys. Inr (y # ys)))"
    by (simp only: range_step_8_Suc [OF assms] mapE.simps mapE_map shift first)
  then show ?thesis
    unfolding blockwise_def by (simp add: bindE_def split: sum.splits)
qed

lemma split_block:
  assumes "length xs = 8 * Suc n"
  shows "xs = take 8 xs @ drop 8 xs" "length (take 8 xs) = 8" "length (drop 8 xs) = 8 * n"
  using assms by simp_all

lemma blockwise_total:
  assumes f: "\<And>blk. length blk = 8 \<Longrightarrow> \<exists>y. f blk = Inr y \<and> length y = 8"
  shows "length xs = 8 * n \<Longrightarrow> \<exists>ys. blockwise f xs = Inr ys \<and> length ys = length xs"
proof (induction n arbitrary: xs)
  case 0
  then show ?case by simp
next
  case (Suc n)
  note parts = split_block [OF Suc.prems]
  from f [OF parts(2)] obtain y where y: "f (take 8 xs) = Inr y" "length y = 8"
    by blast
  from Suc.IH [OF parts(3)] obtain ys
    where ys: "blockwise f (drop 8 xs) = Inr ys" "length ys = length (drop 8 xs)"
    by blast
  have "blockwise f (take 8 xs @ drop 8 xs) = Inr (y @ ys)"
    by (simp only: blockwise_append [OF parts(2)] y(1) ys(1) bindE_Inr)
  moreover have "length (y @ ys) = length xs"
    using y(2) ys(2) Suc.prems by simp
  ultimately show ?case
    by (simp only: append_take_drop_id) blast
qed

lemma blockwise_round_trip:
  assumes f: "\<And>blk. length blk = 8 \<Longrightarrow> \<exists>y. f blk = Inr y \<and> length y = 8 \<and> g y = Inr blk"
  shows "length xs = 8 * n \<Longrightarrow>
         \<exists>ys. blockwise f xs = Inr ys \<and> length ys = length xs \<and> blockwise g ys = Inr xs"
proof (induction n arbitrary: xs)
  case 0
  then show ?case by simp
next
  case (Suc n)
  note parts = split_block [OF Suc.prems]
  from f [OF parts(2)] obtain y
    where y: "f (take 8 xs) = Inr y" "length y = 8" "g y = Inr (take 8 xs)"
    by blast
  from Suc.IH [OF parts(3)] obtain ys
    where ys: "blockwise f (drop 8 xs) = Inr ys" "length ys = length (drop 8 xs)"
      "blockwise g ys = Inr (drop 8 xs)"
    by blast
  have "blockwise f (take 8 xs @ drop 8 xs) = Inr (y @ ys)"
    by (simp only: blockwise_append [OF parts(2)] y(1) ys(1) bindE_Inr)
  moreover have "length (y @ ys) = length xs"
    using y(2) ys(2) Suc.prems by simp
  moreover have "blockwise g (y @ ys) = Inr (take 8 xs @ drop 8 xs)"
    by (simp only: blockwise_append [OF y(2)] y(3) ys(3) bindE_Inr)
  ultimately show ?case
    by (simp only: append_take_drop_id) blast
qed

lemma encrypt_chunk_ok:
  assumes len: "length (subkeys d) = 16" and w: "\<forall>sk \<in> set (subkeys d). length sk = 48"
    and blk: "length blk = 8"
  shows "\<exists>y. encrypt_chunk d blk = Inr y \<and> length y = 8 \<and> decrypt_chunk d y = Inr blk"
proof -
  have b: "length (bytes_to_bit_array blk) = 64"
    using blk by simp
  from feistel_invert [OF w b] obtain c
    where c: "feistel (subkeys d) (bytes_to_bit_array blk) = Inr c" "length c = 64"
      "feistel (rev (subkeys d)) c = Inr (bytes_to_bit_array blk)"
    by blast
  from c(2) have "length c = 8 * 8"
    by simp
  from bytes_of_bit_array [OF this] obtain y
    where y: "bit_array_to_bytes c = Inr y" "length y = 8" "bytes_to_bit_array y = c"
    by blast
  have "encrypt_chunk d blk = Inr y"
    unfolding encrypt_chunk_def
    by (simp only: encrypt_block_feistel [OF len] c(1) bindE_Inr y(1))
  moreover have "decrypt_chunk d y = Inr blk"
    unfolding decrypt_chunk_def
    by (simp only: decrypt_block_feistel [OF len] y(3) c(3) bindE_Inr bit_array_to_bytes_of_bytes)
  ultimately show ?thesis
    using y(2) by blast
qed

lemma decrypt_chunk_ok:
  assumes len: "length (subkeys d) = 16" and w: "\<forall>sk \<in> set (subkeys d). length sk = 48"
    and blk: "length blk = 8"
  shows "\<exists>y. decrypt_chunk d blk = Inr y \<and> length y = 8"
proof -
  have b: "length (bytes_to_bit_array blk) = 64"
    using blk by simp
  have w': "\<forall>sk \<in> set (rev (subkeys d)). length sk = 48"
    using w by simp
  from feistel_invert [OF w' b] obtain c
    where c: "feistel (rev (subkeys d)) (bytes_to_bit_array blk) = Inr c" "length c = 64"
    by blast
  from c(2) have "length c = 8 * 8"
    by simp
  from bytes_of_bit_array [OF this] obtain y
    where y: "bit_array_to_bytes c = Inr y" "length y = 8"
    by blast
  have "decrypt_chunk d blk = Inr y"
    unfolding decrypt_chunk_def
    by (simp only: decrypt_block_feistel [OF len] c(1) bindE_Inr y(1))
  then show ?thesis
    using y(2) by blast
qed

lemma encrypt_blockwise: "encrypt d M = blockwise (encrypt_chunk d) (pad M)"
  by (simp add: encrypt_def blockwise_def Let_def)

lemma decrypt_blocks_blockwise: "decrypt_blocks d ct = blockwise (decrypt_chunk d) ct"
  by (simp add: decrypt_blocks_def blockwise_def)

lemma pad_aligned: "length M mod 8 = 0 \<Longrightarrow> pad M = M"
  by (simp add: pad_def Let_def)

lemma pad_unaligned:
  "length M mod 8 \<noteq> 0 \<Longrightarrow>
   pad M = M @ replicate (8 - length M mod 8) (word_of_nat (8 - length M mod 8))"
  by (simp add: pad_def Let_def)

lemma aligned_div: "(n::nat) mod 8 = 0 \<Longrightarrow> n = 8 * (n div 8)"
  using div_mult_mod_eq [of n 8] by simp

lemma round_up_aligned: "(n::nat) mod 8 = 0 \<Longrightarrow> n = 8 * ((n + 7) div 8)"
proof -
  assume "n mod 8 = 0"
  then have n: "n = 8 * (n div 8)"
    by (rule aligned_div)
  have "(8 * (n div 8) + 7) div 8 = n div 8"
    by simp
  with n show ?thesis
    by simp
qed

lemma round_up_unaligned:
  "(n::nat) mod 8 \<noteq> 0 \<Longrightarrow> n + (8 - n mod 8) = 8 * ((n + 7) div 8)"
proof -
  assume r0: "n mod 8 \<noteq> 0"
  define q where "q = n div 8"
  define r where "r = n mod 8"
  have n: "n = 8 * q + r"
    unfolding q_def r_def by simp
  have r: "0 < r" "r < 8"
    using r0 by (simp_all add: r_def)
  have "(n + 7) div 8 = Suc q"
    by (rule div_nat_eqI) (use n r in simp_all)
  with n r show ?thesis
    unfolding r_def [symmetric] by simp
qed

lemma length_pad: "length (pad M) = 8 * ((length M + 7) div 8)"
proof (cases "length M mod 8 = 0")
  case True
  then show ?thesis
    by (simp only: pad_aligned round_up_aligned [symmetric])
next
  case False
  have "length (pad M) = length M + (8 - length M mod 8)"
    by (simp add: pad_unaligned [OF False])
  then show ?thesis
    by (simp only: round_up_unaligned [OF False])
qed

lemma encrypt_then_decrypt_blocks:
  assumes len: "length (subkeys d) = 16" and w: "\<forall>sk \<in> set (subkeys d). length sk = 48"
  shows "\<exists>ct. encrypt d M = Inr ct \<and> length ct = length (pad M)
              \<and> decrypt_blocks d ct = Inr (pad M)"
  unfolding encrypt_blockwise decrypt_blocks_blockwise
  by (rule blockwise_round_trip [OF encrypt_chunk_ok [OF len w] length_pad])

lemma decrypt_blocks_total:
  assumes len: "length (subkeys d) = 16" and w: "\<forall>sk \<in> set (subkeys d). length sk = 48"
    and ct: "length ct mod 8 = 0"
  shows "\<exists>buf. decrypt_blocks d ct = Inr buf \<and> length buf = length ct"
proof -
  from ct have n: "length ct = 8 * (length ct div 8)"
    by (rule aligned_div)
  show ?thesis
    unfolding decrypt_blocks_blockwise
    by (rule blockwise_total [OF decrypt_chunk_ok [OF len w] n])
qed

lemma slice_bound_neg: "slice_bound xs (- int p) = (if p = 0 then 0 else length xs - p)"
proof -
  have "nat (max (int (length xs) - int p) 0) = length xs - p"
    by (simp add: max_def) linarith
  then show ?thesis
    by (simp add: slice_bound_def Let_def)
qed

lemma slice_from_neg:
  "slice_from xs (- int p) = (if p = 0 then xs else drop (length xs - p) xs)"
  by (simp add: slice_from_def slice_bound_neg)

lemma slice_to_neg:
  "slice_to xs (- int p) = (if p = 0 then [] else take (length xs - p) xs)"
  by (simp add: slice_to_def slice_bound_neg)

lemma index_last: "index xs (- 1) = (if xs = [] then Inl IndexError else Inr (last xs))"
proof (cases xs rule: rev_cases)
  case Nil
  then show ?thesis
    by (simp add: index_def)
next
  case (snoc ys y)
  then show ?thesis
    by (simp add: index_def nat_add_distrib)
qed

lemma remove_padding_Nil [simp]: "remove_padding [] = Inl IndexError"
  by (simp add: remove_padding_def index_last)

lemma remove_padding_nonempty:
  assumes "xs \<noteq> []"
  shows "remove_padding xs =
         (if unat (last xs) < 8
             \<and> (\<forall>b \<in> set (if unat (last xs) = 0 then xs else drop (length xs - unat (last xs)) xs).
                   b = last xs)
          then Inr (if unat (last xs) = 0 then [] else take (length xs - unat (last xs)) xs)
          else Inr xs)"
  using assms
  by (simp only: remove_padding_def index_last bindE_Inr slice_from_neg slice_to_neg list_all_iff if_False)

lemma remove_padding_pad:
  assumes "length M mod 8 \<noteq> 0"
  shows "remove_padding (pad M) = Inr M"
proof -
  define p where "p = 8 - length M mod 8"
  have p: "0 < p" "p < 8"
    using assms by (simp_all add: p_def)
  have pad: "pad M = M @ replicate p (word_of_nat p)"
    unfolding p_def by (rule pad_unaligned [OF assms])
  have ne: "pad M \<noteq> []"
    using p pad by simp
  have last: "last (pad M) = word_of_nat p"
    using p pad by simp
  have u: "unat (word_of_nat p :: byte) = p"
    using p by (simp add: unat_of_nat take_bit_nat_eq_self)
  have len: "length (pad M) - p = length M"
    using pad by simp
  have d: "drop (length M) (pad M) = replicate p (word_of_nat p)"
    and t: "take (length M) (pad M) = M"
    using pad by simp_all
  show ?thesis
    unfolding remove_padding_nonempty [OF ne] last u len d t using p by simp
qed

lemma subkeys_shape:
  assumes "init K = Inr d"
  shows "length (subkeys d) = 16" and "\<forall>sk \<in> set (subkeys d). length sk = 48"
proof -
  have K: "length K = 8"
    using assms by (auto simp: init_def split: if_splits)
  from init_spec [OF K] assms
  have d: "d = \<lparr>key = bytes_to_bit_array K,
                subkeys = map (spec_subkey (bytes_to_bit_array K)) [1..<17]\<rparr>"
    by simp
  show "length (subkeys d) = 16"
    unfolding d by simp
  show "\<forall>sk \<in> set (subkeys d). length sk = 48"
    unfolding d by (simp del: upt_Suc)
qed

lemma decrypt_aligned:
  "length ct mod 8 = 0 \<Longrightarrow> decrypt d ct = bindE (decrypt_blocks d ct) remove_padding"
  by (simp add: decrypt_def)

lemma decrypt_encrypt:
  assumes "init K = Inr d"
  shows "\<exists>ct. encrypt d M = Inr ct \<and> length ct = length (pad M)
              \<and> decrypt d ct = remove_padding (pad M)"
proof -
  from encrypt_then_decrypt_blocks [OF subkeys_shape [OF assms]] obtain ct
    where ct: "encrypt d M = Inr ct" "length ct = length (pad M)"
      "decrypt_blocks d ct = Inr (pad M)"
    by blast
  have "length ct mod 8 = 0"
    unfolding ct(2) length_pad by simp
  then have "decrypt d ct = remove_padding (pad M)"
    by (simp only: decrypt_aligned ct(3) bindE_Inr)
  with ct(1,2) show ?thesis
    by blast
qed

lemma decrypt_blocks_zero_cipher:
  "decrypt_blocks kat_des zero_cipher = Inr [0, 0, 0, 0, 0, 0, 0, 0]"
  by code_simp

lemma pad_trailing_one [simp]: "pad trailing_one = trailing_one"
  by (rule pad_aligned) (simp add: trailing_one_def)

lemma pad_trailing_zero [simp]: "pad trailing_zero = trailing_zero"
  by (rule pad_aligned) (simp add: trailing_zero_def)

lemma encrypt_Nil: "encrypt d [] = Inr []"
  by (simp add: encrypt_blockwise pad_aligned)

lemma decrypt_Nil: "decrypt d [] = Inl IndexError"
  by (simp add: decrypt_aligned decrypt_blocks_blockwise)

section \<open>Padded encryption and decryption: the claims\<close>

text \<open>
  Where the padding scheme loses nothing: a message whose length is not a multiple of 8, or a
  non-empty one whose last byte has a value \<open>P \<ge> 8\<close>, or \<open>1 \<le> P \<le> 7\<close> with the final \<open>P\<close>
  bytes not all equal to \<open>P\<close>, comes back from \<open>decrypt\<close> as it went into \<open>encrypt\<close>.
\<close>

lemma round_trip_when_not_stripped:
  assumes "length K = 8"
    and "length M mod 8 \<noteq> 0
         \<or> (M \<noteq> [] \<and> (8 \<le> unat (last M)
               \<or> (0 < unat (last M)
                   \<and> (\<exists>b \<in> set (drop (length M - unat (last M)) M). b \<noteq> last M))))"
  shows "\<exists>d C. init K = Inr d \<and> encrypt d M = Inr C \<and> decrypt d C = Inr M"
proof -
  from init_spec [OF assms(1)] obtain d where d: "init K = Inr d"
    by blast
  from decrypt_encrypt [OF d, of M] obtain C
    where C: "encrypt d M = Inr C" "decrypt d C = remove_padding (pad M)"
    by blast
  have "remove_padding (pad M) = Inr M"
  proof (cases "length M mod 8 = 0")
    case False
    then show ?thesis
      by (rule remove_padding_pad)
  next
    case True
    with assms(2) have ne: "M \<noteq> []"
      and keep: "8 \<le> unat (last M)
           \<or> (0 < unat (last M) \<and> (\<exists>b \<in> set (drop (length M - unat (last M)) M). b \<noteq> last M))"
      by simp_all
    from keep show ?thesis
      unfolding pad_aligned [OF True] remove_padding_nonempty [OF ne] by auto
  qed
  with d C show ?thesis
    by auto
qed

text \<open>
  Claim C1 says that decrypting the encryption of any byte string under the same 8-byte key
  gives the byte string back. The code does not: with the key of the known-answer vector the
  8-byte message 48 65 6C 6C 6F 21 21 01 is encrypted without padding (its length is a
  multiple of 8), and \<open>decrypt\<close> takes its last byte for a padding byte and returns the
  first 7 bytes only.
\<close>

theorem encrypt_decrypt_loses_byte:
  "init kat_key = Inr kat_des
   \<and> bindE (encrypt kat_des trailing_one) (decrypt kat_des) = Inr (take 7 trailing_one)
   \<and> take 7 trailing_one \<noteq> trailing_one"
proof -
  from decrypt_encrypt [OF init_kat_key, of trailing_one] obtain ct
    where ct: "encrypt kat_des trailing_one = Inr ct"
      "decrypt kat_des ct = remove_padding (pad trailing_one)"
    by blast
  have ne: "trailing_one \<noteq> []"
    by (simp add: trailing_one_def)
  have "remove_padding (pad trailing_one) = Inr (take 7 trailing_one)"
    unfolding pad_trailing_one remove_padding_nonempty [OF ne] by (simp add: trailing_one_def)
  with ct have "bindE (encrypt kat_des trailing_one) (decrypt kat_des) = Inr (take 7 trailing_one)"
    by simp
  moreover have "take 7 trailing_one \<noteq> trailing_one"
    by (simp add: trailing_one_def)
  ultimately show ?thesis
    using init_kat_key by blast
qed

lemma length_trailing_one [simp]: "length trailing_one = 8"
  by (simp add: trailing_one_def)

lemma length_zero_cipher [simp]: "length zero_cipher = 8"
  by (simp add: zero_cipher_def)

text \<open>
  Claim C4, as amended. For every 8-byte key and every plaintext, \<open>encrypt\<close> succeeds and the
  output length is the input length rounded up to a multiple of 8, zero included; a
  plaintext whose length is already a multiple of 8 (the empty one too) gets no padding
  block, so its ciphertext has the same length.
\<close>

theorem encrypt_length:
  assumes "length K = 8"
  shows "\<exists>d C. init K = Inr d \<and> encrypt d M = Inr C
           \<and> length C = 8 * ((length M + 7) div 8)
           \<and> (length M mod 8 = 0 \<longrightarrow> length C = length M)"
proof -
  from init_spec [OF assms] obtain d where d: "init K = Inr d"
    by blast
  from decrypt_encrypt [OF d, of M] obtain C
    where C: "encrypt d M = Inr C" "length C = length (pad M)"
    by blast
  have "length C = 8 * ((length M + 7) div 8)"
    unfolding C(2) by (rule length_pad)
  moreover have "length M mod 8 = 0 \<longrightarrow> length C = length M"
    unfolding C(2) by (simp add: pad_aligned)
  ultimately have "init K = Inr d \<and> encrypt d M = Inr C
           \<and> length C = 8 * ((length M + 7) div 8)
           \<and> (length M mod 8 = 0 \<longrightarrow> length C = length M)"
    using d C(1) by simp
  then have "\<exists>C. init K = Inr d \<and> encrypt d M = Inr C
           \<and> length C = 8 * ((length M + 7) div 8)
           \<and> (length M mod 8 = 0 \<longrightarrow> length C = length M)"
    by (rule exI)
  then show ?thesis
    by (rule exI)
qed

theorem encrypt_length_witness:
  "length kat_key = 8 \<and> length trailing_one mod 8 = 0
   \<and> (\<exists>d C. init kat_key = Inr d \<and> encrypt d trailing_one = Inr C
          \<and> length C = 8 * ((length trailing_one + 7) div 8)
          \<and> length C = length trailing_one)"
proof -
  have k: "length kat_key = 8"
    by simp
  have m: "length trailing_one mod 8 = 0"
    by simp
  from encrypt_length [OF k, of trailing_one] k m show ?thesis
    by blast
qed

theorem encrypt_length_counterexample:
  "init kat_key = Inr kat_des \<and> encrypt kat_des [] = Inr [] \<and> length ([] :: byte list) \<noteq> 8"
  using init_kat_key by (simp add: encrypt_Nil)

text \<open>
  Claim C5, as amended. For every 8-byte key, \<open>decrypt\<close> raises the invalid-input error
  (\<open>ValueError\<close>) exactly when the length of the ciphertext is not a multiple of 8, and for
  every non-empty ciphertext whose length is a multiple of 8 it raises nothing and returns a
  byte string. A result is either an error or a byte string, never both.
\<close>

theorem decrypt_errors:
  assumes "length K = 8"
  shows "\<exists>d. init K = Inr d
           \<and> (decrypt d ct = Inl ValueError \<longleftrightarrow> length ct mod 8 \<noteq> 0)
           \<and> (ct \<noteq> [] \<and> length ct mod 8 = 0 \<longrightarrow> (\<exists>pt. decrypt d ct = Inr pt))"
proof -
  from init_spec [OF assms] obtain d where d: "init K = Inr d"
    by blast
  have ok: "\<exists>pt. decrypt d ct = Inr pt" if "ct \<noteq> []" "length ct mod 8 = 0"
  proof -
    from decrypt_blocks_total [OF subkeys_shape [OF d] that(2)] obtain buf
      where buf: "decrypt_blocks d ct = Inr buf" "length buf = length ct"
      by blast
    from buf(2) that(1) have ne: "buf \<noteq> []"
      by auto
    have "decrypt d ct = remove_padding buf"
      by (simp only: decrypt_aligned [OF that(2)] buf(1) bindE_Inr)
    then show ?thesis
      unfolding remove_padding_nonempty [OF ne] by (simp split: if_splits)
  qed
  have "decrypt d ct = Inl ValueError \<longleftrightarrow> length ct mod 8 \<noteq> 0"
  proof (cases "length ct mod 8 = 0")
    case False
    then show ?thesis
      by (simp add: decrypt_def)
  next
    case True
    show ?thesis
    proof (cases "ct = []")
      case True
      then show ?thesis
        by (simp add: decrypt_Nil)
    next
      case False
      from ok [OF False True] True show ?thesis
        by auto
    qed
  qed
  with d ok have "init K = Inr d
           \<and> (decrypt d ct = Inl ValueError \<longleftrightarrow> length ct mod 8 \<noteq> 0)
           \<and> (ct \<noteq> [] \<and> length ct mod 8 = 0 \<longrightarrow> (\<exists>pt. decrypt d ct = Inr pt))"
    by simp
  then show ?thesis
    by (rule exI)
qed

theorem decrypt_errors_witness:
  "length kat_key = 8 \<and> zero_cipher \<noteq> [] \<and> length zero_cipher mod 8 = 0
   \<and> (\<exists>d pt. init kat_key = Inr d \<and> decrypt d zero_cipher = Inr pt)
   \<and> length (take 7 zero_cipher) mod 8 \<noteq> 0
   \<and> (\<exists>d. init kat_key = Inr d \<and> decrypt d (take 7 zero_cipher) = Inl ValueError)"
proof -
  have k: "length kat_key = 8"
    by simp
  have c: "zero_cipher \<noteq> []" "length zero_cipher mod 8 = 0"
    by (simp_all add: zero_cipher_def)
  have s: "length (take 7 zero_cipher) mod 8 \<noteq> 0"
    by simp
  from decrypt_errors [OF k, of zero_cipher] decrypt_errors [OF k, of "take 7 zero_cipher"] k c s
  show ?thesis
    by blast
qed

theorem decrypt_errors_counterexample:
  "init kat_key = Inr kat_des \<and> decrypt kat_des [] = Inl IndexError
   \<and> decrypt kat_des [] \<noteq> Inl ValueError"
  using init_kat_key by (simp add: decrypt_Nil)

lemma remove_padding_zeros: "remove_padding [0, 0, 0, 0, 0, 0, 0, 0] = Inr []"
  by (simp add: remove_padding_nonempty)

text \<open>
  Claim C6 says that a decrypted buffer whose last byte is \<open>P = 0\<close> loses its final 0 bytes,
  that is, stays as it is. The code does otherwise on a buffer of zero bytes: with the key of
  the known-answer vector the ciphertext 94 8A 43 F9 8A 83 4F 7E decrypts blockwise to eight
  zero bytes, and \<open>decrypt\<close> returns the empty byte string.
\<close>

theorem decrypt_zero_block:
  "init kat_key = Inr kat_des
   \<and> decrypt_blocks kat_des zero_cipher = Inr [0, 0, 0, 0, 0, 0, 0, 0]
   \<and> decrypt kat_des zero_cipher = Inr []"
proof -
  have "decrypt kat_des zero_cipher = Inr []"
    by (simp add: decrypt_aligned decrypt_blocks_zero_cipher remove_padding_zeros)
  with init_kat_key decrypt_blocks_zero_cipher show ?thesis
    by simp
qed

text \<open>
  Claim C10. For a cipher built from an 8-byte key and a non-empty ciphertext whose length is
  a multiple of 8: if the blockwise decryption is a buffer of zero bytes only, \<open>decrypt\<close>
  returns the empty byte string; if the last byte of the buffer is 0 and some byte of it is
  not, \<open>decrypt\<close> returns the buffer unchanged.
\<close>

theorem decrypt_last_byte_zero:
  assumes "init K = Inr d" and "ct \<noteq> []" and "length ct mod 8 = 0"
    and "decrypt_blocks d ct = Inr buf"
  shows "((\<forall>b \<in> set buf. b = 0) \<longrightarrow> decrypt d ct = Inr [])
       \<and> (last buf = 0 \<and> (\<exists>b \<in> set buf. b \<noteq> 0) \<longrightarrow> decrypt d ct = Inr buf)"
proof -
  from decrypt_blocks_total [OF subkeys_shape [OF assms(1)] assms(3)] assms(4)
  have "length buf = length ct"
    by auto
  with assms(2) have ne: "buf \<noteq> []"
    by auto
  have dec: "decrypt d ct = remove_padding buf"
    by (simp only: decrypt_aligned [OF assms(3)] assms(4) bindE_Inr)
  have "decrypt d ct = Inr []" if "\<forall>b \<in> set buf. b = 0"
  proof -
    from that ne have "last buf = 0"
      by simp
    with that show ?thesis
      unfolding dec remove_padding_nonempty [OF ne] by simp
  qed
  moreover have "decrypt d ct = Inr buf" if "last buf = 0" "\<exists>b \<in> set buf. b \<noteq> 0"
    using that unfolding dec remove_padding_nonempty [OF ne] by auto
  ultimately show ?thesis
    by blast
qed

theorem decrypt_last_byte_zero_witness:
  "init kat_key = Inr kat_des \<and> zero_cipher \<noteq> [] \<and> length zero_cipher mod 8 = 0
   \<and> decrypt_blocks kat_des zero_cipher = Inr [0, 0, 0, 0, 0, 0, 0, 0]
   \<and> decrypt kat_des zero_cipher = Inr []
   \<and> last trailing_zero = 0 \<and> hd trailing_zero \<noteq> 0
   \<and> (\<exists>ct. ct \<noteq> [] \<and> length ct mod 8 = 0
          \<and> decrypt_blocks kat_des ct = Inr trailing_zero
          \<and> decrypt kat_des ct = Inr trailing_zero)"
proof -
  have c: "zero_cipher \<noteq> []" "length zero_cipher mod 8 = 0"
    by (simp_all add: zero_cipher_def)
  have z: "\<forall>b \<in> set [0, 0, 0, 0, 0, 0, 0, 0 :: byte]. b = 0"
    by simp
  from decrypt_last_byte_zero [OF init_kat_key c decrypt_blocks_zero_cipher] z
  have first: "decrypt kat_des zero_cipher = Inr []"
    by blast
  have t: "last trailing_zero = 0" "hd trailing_zero \<noteq> 0" "\<exists>b \<in> set trailing_zero. b \<noteq> 0"
    by (simp_all add: trailing_zero_def)
  from encrypt_then_decrypt_blocks [OF subkeys_shape [OF init_kat_key], of trailing_zero]
  obtain ct where ct: "length ct = length (pad trailing_zero)"
    "decrypt_blocks kat_des ct = Inr (pad trailing_zero)"
    by blast
  have l: "length trailing_zero = 8"
    by (simp add: trailing_zero_def)
  have ct': "ct \<noteq> []" "length ct mod 8 = 0" "decrypt_blocks kat_des ct = Inr trailing_zero"
  proof -
    from ct(1) l have len: "length ct = 8"
      by (simp only: pad_trailing_zero)
    then show "ct \<noteq> []"
      by auto
    from len show "length ct mod 8 = 0"
      by simp
    from ct(2) show "decrypt_blocks kat_des ct = Inr trailing_zero"
      by (simp only: pad_trailing_zero)
  qed
  from decrypt_last_byte_zero [OF init_kat_key ct'] t
  have second: "decrypt kat_des ct = Inr trailing_zero"
    by blast
  from ct' second have "ct \<noteq> [] \<and> length ct mod 8 = 0
          \<and> decrypt_blocks kat_des ct = Inr trailing_zero
          \<and> decrypt kat_des ct = Inr trailing_zero"
    by - (intro conjI; assumption)
  then have ex: "\<exists>ct. ct \<noteq> [] \<and> length ct mod 8 = 0
          \<and> decrypt_blocks kat_des ct = Inr trailing_zero
          \<and> decrypt kat_des ct = Inr trailing_zero"
    by (rule exI)
  from init_kat_key c decrypt_blocks_zero_cipher first t(1,2) ex show ?thesis
    by - (intro conjI; assumption)
qed

end
